theory Spec2Isabelle
  imports Main "HOL-Library.Multiset"
begin

section \<open>Data model of src/treeInterval.c\<close>

text \<open>
  \<^verbatim>\<open>struct IntervalNode { int interval[2]; char* tag; IntervalNode** children; int numChildren; ... }\<close>
  A node exclusively owns its children, so the pointer array is a list of nodes and the
  in-place mutation of a child is the replacement of that list element.  The tag is
  \<open>None\<close> for \<^verbatim>\<open>NULL\<close>.  Interval endpoints are only compared and copied by the
  tree operations (never added or subtracted), so they are modelled as \<open>int\<close>; the one
  subtraction, in \<^verbatim>\<open>compareMarkers\<close>, has its 32-bit wrap-around written out below.
\<close>

datatype IntervalNode =
  IntervalNode (interval0: int) (interval1: int) (tag: "string option") (children: "IntervalNode list")

definition set_interval0 :: "int \<Rightarrow> IntervalNode \<Rightarrow> IntervalNode" where
  "set_interval0 v n = IntervalNode v (interval1 n) (tag n) (children n)"

definition set_interval1 :: "int \<Rightarrow> IntervalNode \<Rightarrow> IntervalNode" where
  "set_interval1 v n = IntervalNode (interval0 n) v (tag n) (children n)"

definition set_children :: "IntervalNode list \<Rightarrow> IntervalNode \<Rightarrow> IntervalNode" where
  "set_children cs n = IntervalNode (interval0 n) (interval1 n) (tag n) cs"

record TaggedIntervalTree =
  root :: IntervalNode

record InsertPoint =
  ip_index :: nat
  ip_start :: int
  ip_end :: int

text \<open>\<^verbatim>\<open>createIntervalNode(start, end, tag)\<close>: a node without children.\<close>

definition createIntervalNode :: "int \<Rightarrow> int \<Rightarrow> string option \<Rightarrow> IntervalNode" where
  "createIntervalNode s e tg = IntervalNode s e tg []"

definition createTaggedIntervalTree :: "int \<Rightarrow> int \<Rightarrow> TaggedIntervalTree" where
  "createTaggedIntervalTree s e = \<lparr>root = createIntervalNode s e None\<rparr>"

text \<open>\<^verbatim>\<open>addChildToNode\<close>: append to the child array (capacity growth is not modelled).\<close>

definition addChildToNode :: "IntervalNode \<Rightarrow> IntervalNode \<Rightarrow> IntervalNode" where
  "addChildToNode n child = set_children (children n @ [child]) n"

text \<open>
  Insertion of a pointer at position \<open>pos\<close> of a child array by shifting the tail one
  slot to the right, and removal of position \<open>pos\<close> by shifting the tail to the left.
  The removal loops of the source decrement \<^verbatim>\<open>numChildren\<close> even when nothing is shifted,
  which drops the last element.
\<close>

definition insert_at :: "nat \<Rightarrow> 'a \<Rightarrow> 'a list \<Rightarrow> 'a list" where
  "insert_at pos x xs = take pos xs @ [x] @ drop pos xs"

definition remove_at :: "nat \<Rightarrow> 'a list \<Rightarrow> 'a list" where
  "remove_at pos xs = (if pos < length xs then take pos xs @ drop (Suc pos) xs else butlast xs)"

section \<open>Binary search: findInsertionPoint\<close>

text \<open>
  The loop of \<^verbatim>\<open>findInsertionPoint\<close> with its two \<^verbatim>\<open>int\<close> bounds; \<open>right\<close> may
  become \<open>-1\<close>.  Inside the loop \<open>0 \<le> left \<le> mid \<le> right < numChildren\<close>, so the C
  division is \<open>div\<close> and the read \<open>children[mid]\<close> is in range.
\<close>

function fip_loop :: "IntervalNode list \<Rightarrow> int \<Rightarrow> int \<Rightarrow> int \<Rightarrow> int" where
  "fip_loop cs start left right =
     (if left \<le> right then
        (let mid = (left + right) div 2 in
         if interval0 (cs ! nat mid) = start then mid
         else if interval0 (cs ! nat mid) < start then fip_loop cs start (mid + 1) right
         else fip_loop cs start left (mid - 1))
      else left)"
  by pat_completeness auto
termination
  by (relation "measure (\<lambda>(cs, start, left, right). nat (right - left + 1))") auto

declare fip_loop.simps [simp del]

definition findInsertionPoint :: "IntervalNode list \<Rightarrow> int \<Rightarrow> nat" where
  "findInsertionPoint cs start =
     (if length cs = 0 then 0 else nat (fip_loop cs start 0 (int (length cs) - 1)))"

section \<open>Insertion: tryMergeWithNeighbors, addTagDFS, addTag\<close>

text \<open>
  \<^verbatim>\<open>tryMergeWithNeighbors(node, newStart, newEnd, tag)\<close> returns the flag and the node
  as the call leaves it.  \<^verbatim>\<open>a > b ? a : b\<close> is \<open>max\<close>, \<^verbatim>\<open>a < b ? a : b\<close> is \<open>min\<close>.
\<close>

definition tryMergeWithNeighbors :: "IntervalNode \<Rightarrow> int \<Rightarrow> int \<Rightarrow> string \<Rightarrow> bool \<times> IntervalNode" where
  "tryMergeWithNeighbors node newStart newEnd tg =
     (let cs = children node in
      if length cs = 0 then (False, node)
      else
        (let index = findInsertionPoint cs newStart in
         if index > 0 \<and> tag (cs ! (index - 1)) = Some tg \<and> interval1 (cs ! (index - 1)) \<ge> newStart
         then
           (let leftNeighbor = set_interval1 (max (interval1 (cs ! (index - 1))) newEnd) (cs ! (index - 1)) in
            if index < length cs \<and> tag (cs ! index) = Some tg
               \<and> interval1 leftNeighbor \<ge> interval0 (cs ! index)
            then
              (let rightNeighbor = cs ! index;
                   merged = set_children (children leftNeighbor @ children rightNeighbor)
                              (set_interval1 (max (interval1 leftNeighbor) (interval1 rightNeighbor)) leftNeighbor)
               in (True, set_children (remove_at index (cs[index - 1 := merged])) node))
            else (True, set_children (cs[index - 1 := leftNeighbor]) node))
         else if index < length cs \<and> tag (cs ! index) = Some tg \<and> newEnd \<ge> interval0 (cs ! index)
         then (True, set_children (cs[index := set_interval0 (min (interval0 (cs ! index)) newStart) (cs ! index)]) node)
         else (False, node)))"

text \<open>
  The sweep of \<^verbatim>\<open>addTagDFS\<close> over the children from index \<open>i\<close> (the \<^verbatim>\<open>while\<close> loop):
  \<open>rec child pos\<close> stands for the recursive call \<^verbatim>\<open>addTagDFS(child, tag, pos, end)\<close>,
  which mutates the child in place.  The state is the child array, the index, the current
  position and the insert points collected so far.
\<close>

function sweep :: "(IntervalNode \<Rightarrow> int \<Rightarrow> IntervalNode) \<Rightarrow> int \<Rightarrow> IntervalNode list \<Rightarrow> nat \<Rightarrow> int
    \<Rightarrow> InsertPoint list \<Rightarrow> IntervalNode list \<times> int \<times> InsertPoint list" where
  "sweep rec e cs i currentPos pts =
     (if i < length cs \<and> currentPos < e then
        (let cs1 = (if currentPos < interval1 (cs ! i) then cs[i := rec (cs ! i) currentPos] else cs);
             pos1 = (if currentPos < interval1 (cs ! i) then interval1 (cs1 ! i) else currentPos)
         in if pos1 < e \<and> i + 1 < length cs1 \<and> pos1 < interval0 (cs1 ! (i + 1))
            then sweep rec e cs1 (i + 1) (min (interval0 (cs1 ! (i + 1))) e)
                   (pts @ [\<lparr>ip_index = i + 1, ip_start = pos1, ip_end = min (interval0 (cs1 ! (i + 1))) e\<rparr>])
            else sweep rec e cs1 (i + 1) pos1 pts)
      else (cs, currentPos, pts))"
  by pat_completeness auto
termination
  by (relation "measure (\<lambda>(rec, e, cs, i, currentPos, pts). length cs - i)") auto

declare sweep.simps [simp del]

text \<open>
  The last loop of \<^verbatim>\<open>addTagDFS\<close>: the insert points in reverse order, each first offered
  to \<^verbatim>\<open>tryMergeWithNeighbors\<close> and otherwise materialised at its index.
\<close>

fun insertPoints :: "string \<Rightarrow> IntervalNode \<Rightarrow> InsertPoint list \<Rightarrow> IntervalNode" where
  "insertPoints tg node [] = node"
| "insertPoints tg node (point # points) =
     (if fst (tryMergeWithNeighbors node (ip_start point) (ip_end point) tg)
      then insertPoints tg (snd (tryMergeWithNeighbors node (ip_start point) (ip_end point) tg)) points
      else insertPoints tg
             (set_children (insert_at (ip_index point)
                 (createIntervalNode (ip_start point) (ip_end point) (Some tg)) (children node)) node)
             points)"

lemma sweep_stop:
  "\<not> (i < length cs \<and> pos < e) \<Longrightarrow> sweep rec e cs i pos pts = (cs, pos, pts)"
  by (subst sweep.simps) (simp only: if_False)

lemma sweep_step:
  "i < length cs \<Longrightarrow> pos < e \<Longrightarrow>
   sweep rec e cs i pos pts =
     (let cs1 = (if pos < interval1 (cs ! i) then cs[i := rec (cs ! i) pos] else cs);
          pos1 = (if pos < interval1 (cs ! i) then interval1 (cs1 ! i) else pos)
      in if pos1 < e \<and> i + 1 < length cs1 \<and> pos1 < interval0 (cs1 ! (i + 1))
         then sweep rec e cs1 (i + 1) (min (interval0 (cs1 ! (i + 1))) e)
                (pts @ [\<lparr>ip_index = i + 1, ip_start = pos1, ip_end = min (interval0 (cs1 ! (i + 1))) e\<rparr>])
         else sweep rec e cs1 (i + 1) pos1 pts)"
  by (subst sweep.simps) (simp only: simp_thms if_True)

text \<open>The sweep calls \<open>rec\<close> only on children at positions \<open>i\<close> and later.\<close>

lemma sweep_rec_eq:
  "(\<And>c p. c \<in> set (drop i cs) \<Longrightarrow> rec c p = rec' c p)
   \<Longrightarrow> sweep rec e cs i pos pts = sweep rec' e cs i pos pts"
proof (induction "length cs - i" arbitrary: cs i pos pts)
  case 0
  then have "\<not> (i < length cs \<and> pos < e)" by simp
  then show ?case by (simp add: sweep_stop)
next
  case (Suc n)
  show ?case
  proof (cases "i < length cs \<and> pos < e")
    case False
    then show ?thesis by (simp add: sweep_stop)
  next
    case True
    have here: "rec (cs ! i) pos = rec' (cs ! i) pos"
      using Suc.prems True by (metis Cons_nth_drop_Suc list.set_intros(1))
    define cs1 where "cs1 = (if pos < interval1 (cs ! i) then cs[i := rec' (cs ! i) pos] else cs)"
    have len: "length cs1 = length cs" by (simp add: cs1_def)
    have dr1: "drop (Suc i) cs1 = drop (Suc i) cs" by (simp add: cs1_def)
    have "set (drop (Suc i) cs) \<subseteq> set (drop i cs)"
      by (simp add: set_drop_subset_set_drop)
    then have hyp: "\<And>c p. c \<in> set (drop (Suc i) cs1) \<Longrightarrow> rec c p = rec' c p"
      using Suc.prems dr1 by auto
    have n: "n = length cs1 - Suc i" using Suc.hyps(2) len by simp
    have IH: "\<And>p q. sweep rec e cs1 (Suc i) p q = sweep rec' e cs1 (Suc i) p q"
      using Suc.hyps(1)[OF n hyp] by simp
    have L: "sweep rec e cs i pos pts =
      (let pos1 = (if pos < interval1 (cs ! i) then interval1 (cs1 ! i) else pos)
      in if pos1 < e \<and> i + 1 < length cs1 \<and> pos1 < interval0 (cs1 ! (i + 1))
         then sweep rec e cs1 (i + 1) (min (interval0 (cs1 ! (i + 1))) e)
                (pts @ [\<lparr>ip_index = i + 1, ip_start = pos1, ip_end = min (interval0 (cs1 ! (i + 1))) e\<rparr>])
         else sweep rec e cs1 (i + 1) pos1 pts)"
      using True by (simp only: sweep_step here cs1_def Let_def)
    have R: "sweep rec' e cs i pos pts =
      (let pos1 = (if pos < interval1 (cs ! i) then interval1 (cs1 ! i) else pos)
      in if pos1 < e \<and> i + 1 < length cs1 \<and> pos1 < interval0 (cs1 ! (i + 1))
         then sweep rec' e cs1 (i + 1) (min (interval0 (cs1 ! (i + 1))) e)
                (pts @ [\<lparr>ip_index = i + 1, ip_start = pos1, ip_end = min (interval0 (cs1 ! (i + 1))) e\<rparr>])
         else sweep rec' e cs1 (i + 1) pos1 pts)"
      using True by (simp only: sweep_step cs1_def Let_def)
    show ?thesis
      unfolding L R using IH by (simp only: Let_def Suc_eq_plus1)
  qed
qed

lemma sweep_cong [fundef_cong]:
  assumes "cs = cs'" "i = i'" "e = e'" "currentPos = currentPos'" "pts = pts'"
    and "\<And>c p. c \<in> set (drop i' cs') \<Longrightarrow> rec c p = rec' c p"
  shows "sweep rec e cs i currentPos pts = sweep rec' e' cs' i' currentPos' pts'"
  using assms sweep_rec_eq[of i' cs' rec rec'] by simp

lemma size_child_less: "c \<in> set cs \<Longrightarrow> size c < Suc (size_list size cs)"
  by (induction cs) auto

text \<open>
  \<^verbatim>\<open>addTagDFS(node, tag, start, end)\<close>, returning the node as the call leaves it.  When
  \<^verbatim>\<open>tryMergeWithNeighbors\<close> returns false it has not touched the node, so the sweep
  reads the children of \<open>node\<close> itself.  The recursion descends into children only.
\<close>

function addTagDFS :: "IntervalNode \<Rightarrow> string \<Rightarrow> int \<Rightarrow> int \<Rightarrow> IntervalNode" where
  "addTagDFS node tg start0 end0 =
     (let start = max start0 (interval0 node);
          e = min end0 (interval1 node)
      in if start \<ge> e then node
         else if tag node = Some tg then node
         else if length (children node) = 0
           then addChildToNode node (createIntervalNode start e (Some tg))
         else if fst (tryMergeWithNeighbors node start e tg)
           then snd (tryMergeWithNeighbors node start e tg)
         else
           (let cs = children node;
                i0 = findInsertionPoint cs start;
                i = (if i0 > 0 \<and> interval1 (cs ! (i0 - 1)) > start then i0 - 1 else i0);
                first = (i < length cs \<and> start < interval0 (cs ! i));
                pts0 = (if first
                        then [\<lparr>ip_index = i, ip_start = start, ip_end = min (interval0 (cs ! i)) e\<rparr>]
                        else []);
                pos0 = (if first then min (interval0 (cs ! i)) e else start);
                (cs1, pos1, pts1) = sweep (\<lambda>child pos. addTagDFS child tg pos e) e cs i pos0 pts0;
                pts2 = (if pos1 < e
                        then pts1 @ [\<lparr>ip_index = length cs1, ip_start = pos1, ip_end = e\<rparr>]
                        else pts1)
            in insertPoints tg (set_children cs1 node) (rev pts2)))"
  by pat_completeness auto
termination
  apply (relation "measure (\<lambda>(node, tg, s, e). size node)")
   apply simp
  subgoal for node tg start0 end0 start e cs i0 i first pts0 pos0 c p
    by (cases node) (auto dest!: in_set_dropD intro: size_child_less)
  done

declare addTagDFS.simps [simp del]

text \<open>\<^verbatim>\<open>addTag\<close>: the guard on the interval, then the descent from the root.\<close>

definition addTag :: "TaggedIntervalTree \<Rightarrow> string \<Rightarrow> int \<Rightarrow> int \<Rightarrow> TaggedIntervalTree" where
  "addTag tree tg start e =
     (if start \<ge> e then tree else tree\<lparr>root := addTagDFS (root tree) tg start e\<rparr>)"

section \<open>Membership: checkTagDFS, hasTag\<close>

text \<open>
  \<^verbatim>\<open>checkTagDFS\<close>: the loop from the (stepped back) insertion point returns true at the
  first overlapping child whose recursive check is true, so it is an existence test over
  the children from that index on.
\<close>

function checkTagDFS :: "IntervalNode \<Rightarrow> string \<Rightarrow> int \<Rightarrow> int \<Rightarrow> bool" where
  "checkTagDFS node tg start e =
     (if tag node = Some tg \<and> interval0 node \<le> start \<and> interval1 node \<ge> e then True
      else
        (let cs = children node;
             i0 = findInsertionPoint cs start;
             i = (if i0 > 0 \<and> interval1 (cs ! (i0 - 1)) > start then i0 - 1 else i0)
         in list_ex (\<lambda>child. \<not> (e \<le> interval0 child \<or> start \<ge> interval1 child)
                              \<and> checkTagDFS child tg start e) (drop i cs)))"
  by pat_completeness auto
termination
  apply (relation "measure (\<lambda>(node, tg, s, e). size node)")
   apply simp
  subgoal for node tg start e cs i0 i c
    by (cases node) (auto dest!: in_set_dropD intro: size_child_less)
  done

declare checkTagDFS.simps [simp del]

definition hasTag :: "TaggedIntervalTree \<Rightarrow> string \<Rightarrow> int \<Rightarrow> int \<Rightarrow> bool" where
  "hasTag tree tg start e = checkTagDFS (root tree) tg start e"

section \<open>Removal: removeTagDFS, removeTag\<close>

datatype RemoveState =
  NO_OVERLAP | REMOVE_INTERVAL_INSIDE | REMOVE_INTERVAL_LEFT | REMOVE_INTERVAL_RIGHT
  | REMOVE_ENTIRE_NODE | PROCESSED_CHILDREN

record RemoveResult =
  removed :: bool
  state :: RemoveState
  remainingInterval0 :: int
  remainingInterval1 :: int
  rehookNodeList :: "IntervalNode list"

text \<open>
  A call of \<^verbatim>\<open>removeTagDFS\<close> returns its result together with the node as the call leaves
  it; \<open>None\<close> stands for a computation that does not return within the fuel.  In the loops
  below \<open>rec child s e\<close> is the recursive call \<^verbatim>\<open>removeTagDFS(child, tag, s, e)\<close>.
\<close>

type_synonym removeCall = "IntervalNode \<Rightarrow> int \<Rightarrow> int \<Rightarrow> (RemoveResult \<times> IntervalNode) option"

text \<open>
  A rehooked node is inserted at \<^verbatim>\<open>findInsertionPoint(node->children, ..., rehookNode->interval[0])\<close>.
\<close>

definition rehook_insert :: "IntervalNode list \<Rightarrow> IntervalNode \<Rightarrow> IntervalNode list" where
  "rehook_insert cs rehookNode = insert_at (findInsertionPoint cs (interval0 rehookNode)) rehookNode cs"

text \<open>
  Case 1 (removal strictly inside the tagged node): the loop over the children.  The state
  is the child array as mutated so far, \<open>beforeNodes\<close>, \<open>insideNodes\<close>, \<open>afterNodes\<close> and
  the rehook list of the result.
\<close>

fun inside_loop :: "removeCall \<Rightarrow> int \<Rightarrow> int \<Rightarrow> IntervalNode list
    \<Rightarrow> IntervalNode list \<times> IntervalNode list \<times> IntervalNode list \<times> IntervalNode list \<times> IntervalNode list
    \<Rightarrow> (IntervalNode list \<times> IntervalNode list \<times> IntervalNode list \<times> IntervalNode list \<times> IntervalNode list) option" where
  "inside_loop rec effS effE [] st = Some st"
| "inside_loop rec effS effE (child # rest) (seen, beforeNodes, insideNodes, afterNodes, rehook) =
     (if interval1 child \<le> effS
      then inside_loop rec effS effE rest (seen @ [child], beforeNodes @ [child], insideNodes, afterNodes, rehook)
      else if interval0 child \<ge> effE
      then inside_loop rec effS effE rest (seen @ [child], beforeNodes, insideNodes, afterNodes @ [child], rehook)
      else
        (case rec child effS effE of
           None \<Rightarrow> None
         | Some (childResult, child') \<Rightarrow>
             if removed childResult
                \<and> (state childResult = REMOVE_ENTIRE_NODE \<or> state childResult = REMOVE_INTERVAL_INSIDE)
             then inside_loop rec effS effE rest
                    (seen @ [child'], beforeNodes, insideNodes, afterNodes, rehook @ rehookNodeList childResult)
             else inside_loop rec effS effE rest
                    (seen @ [child'], beforeNodes, insideNodes @ [child'], afterNodes, rehook)))"

text \<open>
  Case 2 (removal covers the left part of the tagged node): the loop over the child
  indices.  The child array may grow while the loop runs (rehooked nodes are inserted), so
  the loop is bounded by fuel \<open>k\<close>.  The state is the child array, the index and
  \<open>childrenToRemove\<close>.
\<close>

fun left_loop :: "nat \<Rightarrow> removeCall \<Rightarrow> int \<Rightarrow> int \<Rightarrow> IntervalNode list \<Rightarrow> nat \<Rightarrow> nat list
    \<Rightarrow> (IntervalNode list \<times> nat list) option" where
  "left_loop 0 rec effS effE cs i toRemove =
     (if i < length cs then None else Some (cs, toRemove))"
| "left_loop (Suc k) rec effS effE cs i toRemove =
     (if i < length cs then
        (let child = cs ! i in
         if interval1 child \<le> effE then left_loop k rec effS effE cs (i + 1) (toRemove @ [i])
         else if interval0 child < effE then
           (case rec child effS effE of
              None \<Rightarrow> None
            | Some (childResult, child') \<Rightarrow>
                if removed childResult \<and> state childResult = REMOVE_ENTIRE_NODE
                then left_loop k rec effS effE
                       (foldl (\<lambda>acc rehookNode. if interval0 rehookNode \<ge> effE
                                                  then rehook_insert acc rehookNode else acc)
                              (cs[i := child']) (rehookNodeList childResult))
                       (i + 1) (toRemove @ [i])
                else left_loop k rec effS effE (cs[i := child']) (i + 1) toRemove)
         else left_loop k rec effS effE cs (i + 1) toRemove)
      else Some (cs, toRemove))"

text \<open>Case 3 (removal covers the right part of the tagged node), symmetric.\<close>

fun right_loop :: "nat \<Rightarrow> removeCall \<Rightarrow> int \<Rightarrow> IntervalNode list \<Rightarrow> nat \<Rightarrow> nat list
    \<Rightarrow> (IntervalNode list \<times> nat list) option" where
  "right_loop 0 rec effS cs i toRemove =
     (if i < length cs then None else Some (cs, toRemove))"
| "right_loop (Suc k) rec effS cs i toRemove =
     (if i < length cs then
        (let child = cs ! i in
         if interval0 child \<ge> effS then right_loop k rec effS cs (i + 1) (toRemove @ [i])
         else if interval1 child > effS then
           (case rec child effS (interval1 child) of
              None \<Rightarrow> None
            | Some (childResult, child') \<Rightarrow>
                if removed childResult \<and> state childResult = REMOVE_ENTIRE_NODE
                then right_loop k rec effS
                       (foldl (\<lambda>acc rehookNode. if interval1 rehookNode \<le> effS
                                                  then rehook_insert acc rehookNode else acc)
                              (cs[i := child']) (rehookNodeList childResult))
                       (i + 1) (toRemove @ [i])
                else right_loop k rec effS (cs[i := child']) (i + 1) toRemove)
         else right_loop k rec effS cs (i + 1) toRemove)
      else Some (cs, toRemove))"

text \<open>Case 4 (removal covers the whole tagged node): the loop building the rehook list.\<close>

fun entire_loop :: "removeCall \<Rightarrow> int \<Rightarrow> int \<Rightarrow> IntervalNode list \<Rightarrow> IntervalNode list
    \<Rightarrow> IntervalNode list option" where
  "entire_loop rec effS effE [] rehook = Some rehook"
| "entire_loop rec effS effE (child # rest) rehook =
     (if interval0 child < effE \<and> interval1 child > effS then
        (case rec child effS effE of
           None \<Rightarrow> None
         | Some (childResult, child') \<Rightarrow>
             if removed childResult
             then entire_loop rec effS effE rest (rehook @ rehookNodeList childResult)
             else entire_loop rec effS effE rest (rehook @ [child']))
      else entire_loop rec effS effE rest (rehook @ [child]))"

text \<open>
  The node does not carry the tag: the \<^verbatim>\<open>while\<close> loop over its children.  The index is
  reset after a child has been replaced by its rehook nodes, and the node itself is handed
  to a recursive call for the remaining interval, so the loop is bounded by fuel \<open>k\<close>.  The
  state is the node, the index and the flag \<open>removed\<close>.
\<close>

fun children_loop :: "nat \<Rightarrow> removeCall \<Rightarrow> int \<Rightarrow> int \<Rightarrow> int \<Rightarrow> int \<Rightarrow> IntervalNode \<Rightarrow> nat \<Rightarrow> bool
    \<Rightarrow> (IntervalNode \<times> bool) option" where
  "children_loop 0 rec start e effS effE node i rem =
     (if i < length (children node) then None else Some (node, rem))"
| "children_loop (Suc k) rec start e effS effE node i rem =
     (if i < length (children node) then
        (let child = children node ! i in
         if effE \<le> interval0 child \<or> effS \<ge> interval1 child
         then children_loop k rec start e effS effE node (i + 1) rem
         else
           (case rec child start e of
              None \<Rightarrow> None
            | Some (childResult, child') \<Rightarrow>
                if removed childResult then
                  (let gone = (state childResult = REMOVE_ENTIRE_NODE
                               \<or> state childResult = REMOVE_INTERVAL_INSIDE);
                       cs1 = (children node)[i := child'];
                       cs2 = (if gone then foldl rehook_insert (remove_at i cs1) (rehookNodeList childResult)
                              else cs1);
                       i0 = findInsertionPoint cs2 effS;
                       i2 = (if gone
                             then (if i0 > 0 \<and> interval1 (cs2 ! (i0 - 1)) > effS then i0 - 1 else i0)
                             else i + 1);
                       node2 = set_children cs2 node
                   in if remainingInterval0 childResult < remainingInterval1 childResult then
                        (case rec node2 (remainingInterval0 childResult) (remainingInterval1 childResult) of
                           None \<Rightarrow> None
                         | Some (remainingResult, node3) \<Rightarrow>
                             children_loop k rec start e effS effE node3 i2 True)
                      else children_loop k rec start e effS effE node2 i2 True)
                else children_loop k rec start e effS effE
                       (set_children ((children node)[i := child']) node) (i + 1) rem))
      else Some (node, rem))"

text \<open>The final loop of the branch: clip every child to the interval of the node.\<close>

definition clip_child :: "IntervalNode \<Rightarrow> IntervalNode \<Rightarrow> IntervalNode" where
  "clip_child node child =
     (let c1 = (if interval0 child < interval0 node then set_interval0 (interval0 node) child else child)
      in if interval1 c1 > interval1 node then set_interval1 (interval1 node) c1 else c1)"

definition processChildren :: "nat \<Rightarrow> removeCall \<Rightarrow> IntervalNode \<Rightarrow> int \<Rightarrow> int \<Rightarrow> int \<Rightarrow> int
    \<Rightarrow> (RemoveResult \<times> IntervalNode) option" where
  "processChildren k rec node start e effS effE =
     (let i0 = findInsertionPoint (children node) effS;
          startIdx = (if i0 > 0 \<and> interval1 (children node ! (i0 - 1)) > effS then i0 - 1 else i0)
      in case children_loop k rec start e effS effE node startIdx False of
           None \<Rightarrow> None
         | Some (node', rem) \<Rightarrow>
             Some (\<lparr>removed = rem, state = PROCESSED_CHILDREN,
                    remainingInterval0 = (if effE > start then effE else start),
                    remainingInterval1 = e, rehookNodeList = []\<rparr>,
                   set_children (map (clip_child node') (children node')) node'))"

text \<open>
  The body of \<^verbatim>\<open>removeTagDFS\<close> after \<^verbatim>\<open>effectiveStart\<close> and \<^verbatim>\<open>effectiveEnd\<close> have been
  computed: the early return, the four cases for a node that carries the tag, and the
  branch for a node that does not.
\<close>

definition removeTagCases :: "nat \<Rightarrow> removeCall \<Rightarrow> IntervalNode \<Rightarrow> string \<Rightarrow> int \<Rightarrow> int \<Rightarrow> int \<Rightarrow> int
    \<Rightarrow> (RemoveResult \<times> IntervalNode) option" where
  "removeTagCases k rec node tg start e effS effE =
     (let originalStart = interval0 node;
          originalEnd = interval1 node
      in if effS \<ge> effE
         then Some (\<lparr>removed = False, state = NO_OVERLAP, remainingInterval0 = start,
                     remainingInterval1 = e, rehookNodeList = []\<rparr>, node)
         else if tag node = Some tg \<and> effS > originalStart \<and> effE < originalEnd then
           (case inside_loop rec effS effE (children node) ([], [], [], [], []) of
              None \<Rightarrow> None
            | Some (seen, beforeNodes, insideNodes, afterNodes, rehook) \<Rightarrow>
                (let rehook1 = (if effS > originalStart
                                then rehook @ [IntervalNode originalStart effS (Some tg) beforeNodes]
                                else rehook @ beforeNodes);
                     rehook2 = rehook1 @ insideNodes;
                     rehook3 = (if effE < originalEnd
                                then rehook2 @ [IntervalNode effE originalEnd (Some tg) afterNodes]
                                else rehook2 @ afterNodes)
                 in Some (\<lparr>removed = True, state = REMOVE_INTERVAL_INSIDE, remainingInterval0 = e,
                           remainingInterval1 = e, rehookNodeList = rehook3\<rparr>,
                          set_children seen node)))
         else if tag node = Some tg \<and> effS \<le> originalStart \<and> effE < originalEnd then
           (case left_loop k rec effS effE (children node) 0 [] of
              None \<Rightarrow> None
            | Some (cs, toRemove) \<Rightarrow>
                Some (\<lparr>removed = True, state = REMOVE_INTERVAL_LEFT, remainingInterval0 = effE,
                       remainingInterval1 = e, rehookNodeList = []\<rparr>,
                      set_children (foldr remove_at toRemove cs) (set_interval0 effE node)))
         else if tag node = Some tg \<and> effS > originalStart \<and> effE \<ge> originalEnd then
           (case right_loop k rec effS (children node) 0 [] of
              None \<Rightarrow> None
            | Some (cs, toRemove) \<Rightarrow>
                Some (\<lparr>removed = True, state = REMOVE_INTERVAL_RIGHT, remainingInterval0 = start,
                       remainingInterval1 = effS, rehookNodeList = []\<rparr>,
                      set_children (foldr remove_at toRemove cs) (set_interval1 effS node)))
         else if tag node = Some tg \<and> effS \<le> originalStart \<and> effE \<ge> originalEnd then
           (case entire_loop rec effS effE (children node) [] of
              None \<Rightarrow> None
            | Some rehook \<Rightarrow>
                Some (\<lparr>removed = True, state = REMOVE_ENTIRE_NODE, remainingInterval0 = effE,
                       remainingInterval1 = e, rehookNodeList = rehook\<rparr>,
                      set_children [] node))
         else processChildren k rec node start e effS effE)"

definition removeTagBody :: "nat \<Rightarrow> removeCall \<Rightarrow> IntervalNode \<Rightarrow> string \<Rightarrow> int \<Rightarrow> int
    \<Rightarrow> (RemoveResult \<times> IntervalNode) option" where
  "removeTagBody k rec node tg start e =
     removeTagCases k rec node tg start e (max start (interval0 node)) (min e (interval1 node))"

text \<open>
  \<^verbatim>\<open>removeTagDFS\<close> with fuel: a call with fuel \<open>Suc n\<close> may nest recursive calls \<open>n\<close>
  deep and run each of its loops for \<open>n\<close> iterations.
\<close>

fun removeTagDFS :: "nat \<Rightarrow> IntervalNode \<Rightarrow> string \<Rightarrow> int \<Rightarrow> int \<Rightarrow> (RemoveResult \<times> IntervalNode) option" where
  "removeTagDFS 0 node tg start e = None"
| "removeTagDFS (Suc n) node tg start e =
     removeTagBody n (\<lambda>child s e'. removeTagDFS n child tg s e') node tg start e"

text \<open>
  \<^verbatim>\<open>removeTag\<close>: the returned flag together with the tree as the call leaves it.  The
  rehook list of the root's result is discarded.
\<close>

definition removeTag :: "nat \<Rightarrow> TaggedIntervalTree \<Rightarrow> string \<Rightarrow> int \<Rightarrow> int \<Rightarrow> (bool \<times> TaggedIntervalTree) option" where
  "removeTag fuel tree tg start e =
     (if start \<ge> e then Some (False, tree)
      else (case removeTagDFS fuel (root tree) tg start e of
              None \<Rightarrow> None
            | Some (result, root') \<Rightarrow> Some (removed result, tree\<lparr>root := root'\<rparr>)))"

section \<open>Rendering: the markers of getFormattedText\<close>

text \<open>
  \<^verbatim>\<open>struct TagMarker { int position; char* tag; bool isOpening; }\<close>.
\<close>

record TagMarker =
  position :: int
  marker_tag :: string
  isOpening :: bool

text \<open>
  The subtraction of two \<^verbatim>\<open>int\<close> values as a 32-bit two's complement machine performs
  it (the C standard leaves the overflow undefined).
\<close>

definition wrap32 :: "int \<Rightarrow> int" where
  "wrap32 x = (x + 2147483648) mod 4294967296 - 2147483648"

definition compareMarkers :: "TagMarker \<Rightarrow> TagMarker \<Rightarrow> int" where
  "compareMarkers markerA markerB =
     (if position markerA = position markerB then (if isOpening markerA then 1 else - 1)
      else wrap32 (position markerA - position markerB))"



section \<open>The invariants of the data model\<close>

text \<open>
  Two sibling intervals \<open>[a, b)\<close> and \<open>[c, d)\<close> overlap when \<open>a < d\<close> and \<open>c < b\<close>.
  \<open>nested\<close>: at every node, each child's interval is contained in the node's interval.
  \<open>siblings_sorted\<close>: at every node, the children are ascending by start and pairwise
  non-overlapping.
\<close>

definition overlaps :: "IntervalNode \<Rightarrow> IntervalNode \<Rightarrow> bool" where
  "overlaps c d = (interval0 c < interval1 d \<and> interval0 d < interval1 c)"

fun nested :: "IntervalNode \<Rightarrow> bool" where
  "nested (IntervalNode s e t cs) =
     (list_all (\<lambda>c. s \<le> interval0 c \<and> interval1 c \<le> e) cs \<and> list_all nested cs)"

fun siblings_sorted :: "IntervalNode \<Rightarrow> bool" where
  "siblings_sorted (IntervalNode s e t cs) =
     (sorted_wrt (\<lambda>c d. interval0 c \<le> interval0 d \<and> \<not> overlaps c d) cs \<and> list_all siblings_sorted cs)"

definition tree_invariant :: "TaggedIntervalTree \<Rightarrow> bool" where
  "tree_invariant tree = (nested (root tree) \<and> siblings_sorted (root tree))"

text \<open>\<open>occurs tg node\<close>: some node of the subtree carries the tag.\<close>

fun occurs :: "string \<Rightarrow> IntervalNode \<Rightarrow> bool" where
  "occurs tg (IntervalNode s e t cs) = (t = Some tg \<or> list_ex (occurs tg) cs)"

text \<open>
  \<open>admits tg node a b\<close>: \<^verbatim>\<open>addTagDFS\<close> places the interval \<open>[a, b)\<close> with the tag \<open>tg\<close> below
  \<open>node\<close> without splitting it and without losing a part of it.  Either the node itself
  carries the tag, or its children are non-empty intervals, ascending and pairwise
  non-overlapping (the invariants of the data model for the children of one node) and
  one of the following holds.  A child that carries the tag starts before \<open>a\<close> and ends at
  or after \<open>a\<close>: the interval is merged into it.  Or a child that carries the tag starts in
  \<open>[a, b]\<close> and ends at or after \<open>b\<close>, and no child starts between \<open>a\<close> and the start of this
  child: the start of the child is lowered to \<open>a\<close>.  Or every child either misses
  \<open>[a, b)\<close>, or contains it and admits it in turn: the interval goes into a gap between
  the children or down into the one child that contains it.
\<close>

fun admits :: "string \<Rightarrow> IntervalNode \<Rightarrow> int \<Rightarrow> int \<Rightarrow> bool" where
  "admits tg (IntervalNode s e t cs) a b =
     (t = Some tg
      \<or> (sorted_wrt (\<lambda>c d. interval1 c \<le> interval0 d) cs
         \<and> list_all (\<lambda>c. interval0 c < interval1 c) cs
         \<and> (list_ex (\<lambda>c. tag c = Some tg \<and> interval0 c < a \<and> a \<le> interval1 c) cs
            \<or> list_ex (\<lambda>c. tag c = Some tg \<and> a \<le> interval0 c \<and> interval0 c \<le> b \<and> b \<le> interval1 c
                          \<and> list_all (\<lambda>d. interval0 d < a \<or> interval0 c \<le> interval0 d) cs) cs
            \<or> list_all (\<lambda>c. interval1 c \<le> a \<or> b \<le> interval0 c
                           \<or> (interval0 c \<le> a \<and> b \<le> interval1 c \<and> admits tg c a b)) cs)))"

section \<open>Measures and postconditions for the termination of removal\<close>

text \<open>
  One recursion callback returns at least what another one does: used to compare
  \<open>removeTagDFS\<close> at two amounts of fuel.
\<close>

definition rec_le :: "removeCall \<Rightarrow> removeCall \<Rightarrow> bool" where
  "rec_le r1 r2 = (\<forall>c s e y. r1 c s e = Some y \<longrightarrow> r2 c s e = Some y)"

text \<open>The node and the index with which the loop of the untagged branch continues after a
  child has reported a removal.\<close>

definition node_after :: "IntervalNode \<Rightarrow> nat \<Rightarrow> RemoveResult \<Rightarrow> IntervalNode \<Rightarrow> IntervalNode" where
  "node_after node i r c' =
     set_children
       (if state r = REMOVE_ENTIRE_NODE \<or> state r = REMOVE_INTERVAL_INSIDE
        then foldl rehook_insert (remove_at i ((children node)[i := c'])) (rehookNodeList r)
        else (children node)[i := c']) node"

definition index_after :: "int \<Rightarrow> IntervalNode \<Rightarrow> nat \<Rightarrow> RemoveResult \<Rightarrow> IntervalNode \<Rightarrow> nat" where
  "index_after effS node i r c' =
     (let cs2 = children (node_after node i r c'); i0 = findInsertionPoint cs2 effS
      in if state r = REMOVE_ENTIRE_NODE \<or> state r = REMOVE_INTERVAL_INSIDE
         then (if i0 > 0 \<and> interval1 (cs2 ! (i0 - 1)) > effS then i0 - 1 else i0)
         else i + 1)"

text \<open>
  A measure of a subtree for one tag: every node counts 1, and a node that carries the
  tag counts in addition twice the length of its interval.
\<close>

fun mu :: "string \<Rightarrow> IntervalNode \<Rightarrow> nat" where
  "mu tg (IntervalNode s e t cs) =
     (if t = Some tg then 1 + 2 * nat (e - s) else 1) + sum_list (map (mu tg) cs)"

definition wgt :: "string \<Rightarrow> IntervalNode \<Rightarrow> nat" where
  "wgt tg n = (if tag n = Some tg then 1 + 2 * nat (interval1 n - interval0 n) else 1)"

abbreviation mus :: "string \<Rightarrow> IntervalNode list \<Rightarrow> nat" where
  "mus tg cs \<equiv> sum_list (map (mu tg) cs)"

text \<open>
  What one call of \<open>removeTagDFS\<close> on a node \<open>c\<close> guarantees about the node as it leaves
  it (\<open>c'\<close>) and about its result \<open>r\<close>.
\<close>

definition gone :: "RemoveResult \<Rightarrow> bool" where
  "gone r = (state r = REMOVE_ENTIRE_NODE \<or> state r = REMOVE_INTERVAL_INSIDE)"

definition call_post :: "string \<Rightarrow> IntervalNode \<Rightarrow> int \<Rightarrow> int \<Rightarrow> RemoveResult \<Rightarrow> IntervalNode \<Rightarrow> bool" where
  "call_post tg c s e r c' =
     (mu tg c' \<le> mu tg c \<and> mus tg (rehookNodeList r) \<le> mu tg c
      \<and> (removed r \<longrightarrow> (if gone r then mus tg (rehookNodeList r) < mu tg c else mu tg c' < mu tg c))
      \<and> (state r = REMOVE_ENTIRE_NODE \<longrightarrow> s \<le> interval0 c \<and> interval1 c \<le> e))"

definition rec_post :: "string \<Rightarrow> removeCall \<Rightarrow> bool" where
  "rec_post tg rec = (\<forall>c s e r c'. rec c s e = Some (r, c') \<longrightarrow> call_post tg c s e r c')"

text \<open>The recursive calls on nodes of measure below \<open>M\<close> all return.\<close>

definition tot :: "string \<Rightarrow> nat \<Rightarrow> removeCall \<Rightarrow> bool" where
  "tot tg M rec = (\<forall>c s e. mu tg c < M \<longrightarrow> (\<exists>y. rec c s e = Some y))"

section \<open>Basic facts\<close>

lemma fip_nil: "findInsertionPoint [] v = 0"
  by (simp add: findInsertionPoint_def)

lemma fip_single: "findInsertionPoint [c] v = (if interval0 c < v then 1 else 0)"
  by (simp add: findInsertionPoint_def fip_loop.simps[of _ _ 0 0] fip_loop.simps[of _ _ 1 0]
        fip_loop.simps[of _ _ 0 "-1"])

lemma fip_pair:
  "findInsertionPoint [c, d] v =
     (if interval0 c = v then 0
      else if interval0 c < v then (if interval0 d = v then 1 else if interval0 d < v then 2 else 1)
      else 0)"
  by (simp add: findInsertionPoint_def fip_loop.simps[of _ _ 0 1] fip_loop.simps[of _ _ 1 1]
        fip_loop.simps[of _ _ 2 1] fip_loop.simps[of _ _ 1 0] fip_loop.simps[of _ _ 0 "-1"])

lemma addTagDFS_no_overlap:
  "max start (interval0 node) \<ge> min e (interval1 node) \<Longrightarrow> addTagDFS node tg start e = node"
  by (subst addTagDFS.simps) (simp add: Let_def)

lemma fresh_add:
  "max s A < min e B \<Longrightarrow>
   addTagDFS (IntervalNode A B None []) tg s e
     = IntervalNode A B None [IntervalNode (max s A) (min e B) (Some tg) []]"
  by (subst addTagDFS.simps)
     (auto simp add: Let_def addChildToNode_def createIntervalNode_def set_children_def)

lemma checkTagDFS_leaf:
  "checkTagDFS (IntervalNode a b t []) tg s e = (t = Some tg \<and> a \<le> s \<and> e \<le> b)"
  by (subst checkTagDFS.simps) (simp add: fip_nil)

lemma children_loop_done:
  "length (children node) \<le> i \<Longrightarrow> children_loop k rec s e es ee node i rem = Some (node, rem)"
  by (cases k) simp_all

section \<open>Insertion with an invalid interval\<close>

text \<open>
  Claim C9.  For every tree, tag and integers \<open>start\<close>, \<open>e\<close>: if \<open>start \<ge> e\<close>, or the
  interval clipped to the domain of the root is empty (no overlap with the domain), then
  \<open>addTag\<close> returns the tree unchanged.
\<close>

theorem addTag_invalid_noop:
  "start \<ge> e \<or> max start (interval0 (root tree)) \<ge> min e (interval1 (root tree))
   \<Longrightarrow> addTag tree tg start e = tree"
  by (auto simp: addTag_def addTagDFS_no_overlap)

theorem addTag_invalid_noop_witness:
  "addTag (createTaggedIntervalTree 0 20) ''x'' 7 3 = createTaggedIntervalTree 0 20
   \<and> addTag (createTaggedIntervalTree 0 20) ''x'' 25 30 = createTaggedIntervalTree 0 20"
  using addTag_invalid_noop[of 3 7 "createTaggedIntervalTree 0 20" "''x''"]
    addTag_invalid_noop[of 30 25 "createTaggedIntervalTree 0 20" "''x''"]
  by (simp add: createTaggedIntervalTree_def createIntervalNode_def)

section \<open>The merge law\<close>

text \<open>
  Claim C6.  On a fresh tree whose domain \<open>[A, B)\<close> contains \<open>[0, 20)\<close>, adding \<open>x\<close> on
  \<open>[0, 10)\<close> and then on \<open>[10, 20)\<close> leaves the root with exactly one child: the node
  \<open>[0, 20)\<close> tagged \<open>x\<close>, without children.
\<close>

theorem merge_law:
  assumes "A \<le> 0" "20 \<le> B"
  shows "root (addTag (addTag (createTaggedIntervalTree A B) ''x'' 0 10) ''x'' 10 20)
         = IntervalNode A B None [IntervalNode 0 20 (Some ''x'') []]"
proof -
  have 1: "addTag (createTaggedIntervalTree A B) ''x'' 0 10
            = \<lparr>root = IntervalNode A B None [IntervalNode 0 10 (Some ''x'') []]\<rparr>"
    using assms
    by (simp add: addTag_def createTaggedIntervalTree_def createIntervalNode_def fresh_add)
  have 2: "tryMergeWithNeighbors (IntervalNode A B None [IntervalNode 0 10 (Some ''x'') []]) 10 20 ''x''
      = (True, IntervalNode A B None [IntervalNode 0 20 (Some ''x'') []])"
    by (simp add: tryMergeWithNeighbors_def fip_single Let_def set_interval1_def set_children_def)
  show ?thesis
    unfolding 1 using assms
    by (simp add: addTag_def, subst addTagDFS.simps) (simp add: Let_def 2)
qed

theorem merge_law_witness:
  "root (addTag (addTag (createTaggedIntervalTree (-5) 30) ''x'' 0 10) ''x'' 10 20)
         = IntervalNode (-5) 30 None [IntervalNode 0 20 (Some ''x'') []]"
  using merge_law[of "-5" 30] by simp

section \<open>Removal from the interior of a tagged span\<close>

text \<open>
  Claim C5.  On a fresh tree whose domain \<open>[A, B)\<close> contains \<open>[0, 100)\<close>, after
  \<open>addTag x 0 100\<close> the call \<open>removeTag x 40 60\<close> returns (with any fuel from 3 on, and
  with the flag true), and in the tree it leaves \<open>hasTag x 0 40\<close> and \<open>hasTag x 60 100\<close>
  are true and \<open>hasTag x 40 60\<close> is false.
\<close>

theorem partial_removal:
  assumes "A \<le> 0" "100 \<le> B"
  shows "\<exists>t'. removeTag (Suc (Suc (Suc n))) (addTag (createTaggedIntervalTree A B) ''x'' 0 100) ''x'' 40 60
                = Some (True, t')
           \<and> hasTag t' ''x'' 0 40 \<and> hasTag t' ''x'' 60 100 \<and> \<not> hasTag t' ''x'' 40 60"
proof -
  let ?x = "Some ''x''"
  let ?t' = "\<lparr>root = IntervalNode A B None [IntervalNode 0 40 ?x [], IntervalNode 60 100 ?x []]\<rparr>"
  have 1: "addTag (createTaggedIntervalTree A B) ''x'' 0 100
            = \<lparr>root = IntervalNode A B None [IntervalNode 0 100 ?x []]\<rparr>"
    using assms
    by (simp add: addTag_def createTaggedIntervalTree_def createIntervalNode_def fresh_add)
  have child: "removeTagDFS (Suc (Suc n)) (IntervalNode 0 100 ?x []) ''x'' 40 60
     = Some (\<lparr>removed = True, state = REMOVE_INTERVAL_INSIDE, remainingInterval0 = 60,
              remainingInterval1 = 60,
              rehookNodeList = [IntervalNode 0 40 ?x [], IntervalNode 60 100 ?x []]\<rparr>,
             IntervalNode 0 100 ?x [])"
    by (simp add: removeTagBody_def removeTagCases_def Let_def set_children_def)
  have loop: "children_loop (Suc (Suc n)) (\<lambda>child s e'. removeTagDFS (Suc (Suc n)) child ''x'' s e')
                40 60 40 60 (IntervalNode A B None [IntervalNode 0 100 ?x []]) 0 False
     = Some (IntervalNode A B None [IntervalNode 0 40 ?x [], IntervalNode 60 100 ?x []], True)"
    by (simp add: child Let_def remove_at_def rehook_insert_def fip_nil fip_single fip_pair
          insert_at_def set_children_def children_loop_done del: removeTagDFS.simps)
  have r: "removeTag (Suc (Suc (Suc n))) \<lparr>root = IntervalNode A B None [IntervalNode 0 100 ?x []]\<rparr> ''x'' 40 60
     = Some (True, ?t')"
    unfolding removeTag_def using assms
    by (subst removeTagDFS.simps)
       (simp add: removeTagBody_def removeTagCases_def processChildren_def fip_single loop Let_def
           clip_child_def set_children_def set_interval0_def set_interval1_def
           del: removeTagDFS.simps children_loop.simps)
  have h1: "hasTag ?t' ''x'' 0 40"
    by (simp add: hasTag_def, subst checkTagDFS.simps) (simp add: checkTagDFS_leaf fip_pair Let_def)
  have h2: "hasTag ?t' ''x'' 60 100"
    by (simp add: hasTag_def, subst checkTagDFS.simps) (simp add: checkTagDFS_leaf fip_pair Let_def)
  have h3: "\<not> hasTag ?t' ''x'' 40 60"
    by (simp add: hasTag_def, subst checkTagDFS.simps) (simp add: checkTagDFS_leaf fip_pair Let_def)
  show ?thesis unfolding 1 r using h1 h2 h3 by blast
qed

theorem partial_removal_witness:
  "\<exists>t'. removeTag 3 (addTag (createTaggedIntervalTree 0 100) ''x'' 0 100) ''x'' 40 60 = Some (True, t')
           \<and> hasTag t' ''x'' 0 40 \<and> hasTag t' ''x'' 60 100 \<and> \<not> hasTag t' ''x'' 40 60"
  using partial_removal[of 0 100 0] by (simp add: numeral_3_eq_3)

section \<open>A removal that reports false changes nothing\<close>

lemma set_children_same [simp]: "set_children (children node) node = node"
  by (cases node) (simp add: set_children_def)

lemma children_loop_true:
  "children_loop k rec start e effS effE node i True = Some (n', r') \<Longrightarrow> r'"
proof (induction k arbitrary: node i)
  case 0
  then show ?case by (simp split: if_splits)
next
  case (Suc k)
  then show ?case
    by (simp add: Let_def split: if_splits option.splits prod.splits)
qed

lemma children_loop_unremoved:
  assumes "\<And>c s' e' r c'. c \<in> set (children node) \<Longrightarrow> rec c s' e' = Some (r, c') \<Longrightarrow> \<not> removed r \<Longrightarrow> c' = c"
  shows "children_loop k rec start e effS effE node i rem = Some (node', False) \<Longrightarrow> node' = node"
proof (induction k arbitrary: i rem)
  case 0
  then show ?case by (simp split: if_splits)
next
  case (Suc k)
  show ?case
  proof (cases "i < length (children node)")
    case False
    then show ?thesis using Suc.prems by simp
  next
    case True
    let ?child = "children node ! i"
    show ?thesis
    proof (cases "effE \<le> interval0 ?child \<or> effS \<ge> interval1 ?child")
      case skip: True
      then show ?thesis using Suc.prems True Suc.IH[of "i + 1" rem] by (simp add: Let_def)
    next
      case noskip: False
      then obtain r c' where rc: "rec ?child start e = Some (r, c')"
        using Suc.prems True by (auto simp: Let_def split: option.splits)
      show ?thesis
      proof (cases "removed r")
        case True
        then have False
          using Suc.prems \<open>i < length (children node)\<close> noskip rc children_loop_true
          by (auto simp: Let_def split: if_splits option.splits prod.splits)
        then show ?thesis ..
      next
        case False
        then have "c' = ?child"
          using assms[OF _ rc] \<open>i < length (children node)\<close> by simp
        then show ?thesis
          using Suc.prems \<open>i < length (children node)\<close> noskip rc False Suc.IH[of "i + 1" rem]
          by (simp add: Let_def)
      qed
    qed
  qed
qed

lemma nested_children: "nested node \<Longrightarrow> c \<in> set (children node) \<Longrightarrow> nested c"
  by (cases node) (auto simp: list_all_iff)

lemma nested_clip: "nested node \<Longrightarrow> map (clip_child node) (children node) = children node"
  by (cases node) (auto simp: list_all_iff clip_child_def Let_def intro!: map_idI)

lemma removeTagDFS_unremoved:
  "removeTagDFS n node tg s e = Some (r, node') \<Longrightarrow> nested node \<Longrightarrow> \<not> removed r \<Longrightarrow> node' = node"
proof (induction n arbitrary: node s e r node')
  case 0
  then show ?case by simp
next
  case (Suc n)
  let ?rec = "\<lambda>child s e'. removeTagDFS n child tg s e'"
  have rec: "\<And>c s' e' r c'. c \<in> set (children node) \<Longrightarrow> ?rec c s' e' = Some (r, c') \<Longrightarrow> \<not> removed r \<Longrightarrow> c' = c"
    using Suc.IH Suc.prems(2) nested_children by blast
  from Suc.prems(1) have body: "removeTagBody n ?rec node tg s e = Some (r, node')" by simp
  show ?case
  proof (cases "max s (interval0 node) \<ge> min e (interval1 node)")
    case True
    then show ?thesis using body by (simp add: removeTagBody_def removeTagCases_def Let_def)
  next
    case False
    have pc: "processChildren n ?rec node s e (max s (interval0 node)) (min e (interval1 node)) = Some (r, node')"
      using body False Suc.prems(3)
      by (auto simp: removeTagBody_def removeTagCases_def Let_def split: if_splits option.splits prod.splits)
    then obtain nodeL rem where
      loop: "children_loop n ?rec s e (max s (interval0 node)) (min e (interval1 node)) node
               (let i0 = findInsertionPoint (children node) (max s (interval0 node))
                in if i0 > 0 \<and> interval1 (children node ! (i0 - 1)) > max s (interval0 node) then i0 - 1 else i0)
               False = Some (nodeL, rem)"
      and r: "removed r = rem" and n': "node' = set_children (map (clip_child nodeL) (children nodeL)) nodeL"
      by (auto simp: processChildren_def Let_def split: option.splits prod.splits)
    have "rem = False" using r Suc.prems(3) by simp
    then have "nodeL = node"
      using children_loop_unremoved[where node = node and rec = "?rec" and node' = nodeL] rec loop
      by blast
    then show ?thesis using n' nested_clip[OF Suc.prems(2)] by simp
  qed
qed



lemma occurs_children: "\<not> occurs tg node \<Longrightarrow> c \<in> set (children node) \<Longrightarrow> \<not> occurs tg c"
  by (cases node) (auto simp: list_ex_iff)

lemma occurs_tag: "\<not> occurs tg node \<Longrightarrow> tag node \<noteq> Some tg"
  by (cases node) auto

lemma children_loop_absent:
  assumes "\<And>c s' e' r c'. c \<in> set (children node) \<Longrightarrow> rec c s' e' = Some (r, c') \<Longrightarrow> \<not> removed r \<and> c' = c"
  shows "children_loop k rec start e effS effE node i False = Some (node', rem) \<Longrightarrow> \<not> rem"
proof (induction k arbitrary: i)
  case 0
  then show ?case by (simp split: if_splits)
next
  case (Suc k)
  show ?case
  proof (cases "i < length (children node)")
    case False
    then show ?thesis using Suc.prems by simp
  next
    case True
    let ?child = "children node ! i"
    show ?thesis
    proof (cases "effE \<le> interval0 ?child \<or> effS \<ge> interval1 ?child")
      case skip: True
      then show ?thesis using Suc.prems True Suc.IH[of "i + 1"] by (simp add: Let_def)
    next
      case noskip: False
      then obtain r c' where rc: "rec ?child start e = Some (r, c')"
        using Suc.prems True by (auto simp: Let_def split: option.splits)
      then have "\<not> removed r" "c' = ?child"
        using assms[OF _ rc] True by simp_all
      then show ?thesis
        using Suc.prems True noskip rc Suc.IH[of "i + 1"] by (simp add: Let_def)
    qed
  qed
qed

lemma removeTagDFS_absent:
  "removeTagDFS n node tg s e = Some (r, node') \<Longrightarrow> nested node \<Longrightarrow> \<not> occurs tg node \<Longrightarrow> \<not> removed r"
proof (induction n arbitrary: node s e r node')
  case 0
  then show ?case by simp
next
  case (Suc n)
  let ?rec = "\<lambda>child s e'. removeTagDFS n child tg s e'"
  have rec: "\<And>c s' e' r c'. c \<in> set (children node) \<Longrightarrow> ?rec c s' e' = Some (r, c') \<Longrightarrow> \<not> removed r \<and> c' = c"
    using Suc.IH Suc.prems(2,3) nested_children occurs_children removeTagDFS_unremoved by blast
  from Suc.prems(1) have body: "removeTagBody n ?rec node tg s e = Some (r, node')" by simp
  have nt: "tag node \<noteq> Some tg" using Suc.prems(3) occurs_tag by blast
  show ?case
  proof (cases "max s (interval0 node) \<ge> min e (interval1 node)")
    case True
    then show ?thesis using body by (auto simp add: removeTagBody_def removeTagCases_def Let_def)
  next
    case False
    have pc: "processChildren n ?rec node s e (max s (interval0 node)) (min e (interval1 node)) = Some (r, node')"
      using body False nt by (simp add: removeTagBody_def removeTagCases_def Let_def)
    then obtain nodeL rem where
      loop: "children_loop n ?rec s e (max s (interval0 node)) (min e (interval1 node)) node
               (let i0 = findInsertionPoint (children node) (max s (interval0 node))
                in if i0 > 0 \<and> interval1 (children node ! (i0 - 1)) > max s (interval0 node) then i0 - 1 else i0)
               False = Some (nodeL, rem)"
      and r: "removed r = rem"
      by (auto simp: processChildren_def Let_def split: option.splits prod.splits)
    have "\<not> rem"
      using children_loop_absent[where node = node and rec = "?rec"] rec loop by blast
    then show ?thesis using r by simp
  qed
qed

text \<open>
  Claim C10.  For every tree that satisfies the nesting and sortedness invariants: when
  \<open>removeTag\<close> returns the flag false, the tree it leaves is the tree it was given; and
  it returns false whenever \<open>start \<ge> e\<close>, or the interval does not overlap the domain of
  the root, or the tag occurs nowhere in the tree.  (Only the nesting invariant is used.)
\<close>

theorem removeTag_false_unchanged:
  assumes "tree_invariant tree" and "removeTag fuel tree tg start e = Some (flag, tree')"
  shows "(\<not> flag \<longrightarrow> tree' = tree)
       \<and> (start \<ge> e \<or> max start (interval0 (root tree)) \<ge> min e (interval1 (root tree))
            \<or> \<not> occurs tg (root tree) \<longrightarrow> \<not> flag)"
proof (cases "start \<ge> e")
  case True
  then show ?thesis using assms by (simp add: removeTag_def)
next
  case False
  then obtain r root' where rr: "removeTagDFS fuel (root tree) tg start e = Some (r, root')"
    and fl: "flag = removed r" and t': "tree' = tree\<lparr>root := root'\<rparr>"
    using assms(2) by (auto simp: removeTag_def split: option.splits prod.splits)
  have n: "nested (root tree)" using assms(1) by (simp add: tree_invariant_def)
  have 1: "\<not> flag \<longrightarrow> tree' = tree"
    using removeTagDFS_unremoved[OF rr n] fl t' by auto
  have 2: "\<not> occurs tg (root tree) \<longrightarrow> \<not> flag"
    using removeTagDFS_absent[OF rr n] fl by auto
  have 3: "max start (interval0 (root tree)) \<ge> min e (interval1 (root tree)) \<longrightarrow> \<not> flag"
    using rr fl by (cases fuel) (auto simp: removeTagBody_def removeTagCases_def Let_def)
  show ?thesis using 1 2 3 False by blast
qed

theorem removeTag_false_unchanged_witness:
  "tree_invariant \<lparr>root = IntervalNode 0 20 None [IntervalNode 0 10 (Some ''x'') []]\<rparr>
   \<and> removeTag 3 \<lparr>root = IntervalNode 0 20 None [IntervalNode 0 10 (Some ''x'') []]\<rparr> ''y'' 2 5
       = Some (False, \<lparr>root = IntervalNode 0 20 None [IntervalNode 0 10 (Some ''x'') []]\<rparr>)"
proof -
  let ?t = "\<lparr>root = IntervalNode 0 20 None [IntervalNode 0 10 (Some ''x'') []]\<rparr>"
  have inv: "tree_invariant ?t" by (simp add: tree_invariant_def)
  have "removeTag 3 ?t ''y'' 2 5 \<noteq> None"
    by code_simp
  then obtain flag t' where run: "removeTag 3 ?t ''y'' 2 5 = Some (flag, t')"
    by fastforce
  have "\<not> occurs ''y'' (root ?t)" by simp
  then have "\<not> flag" "t' = ?t"
    using removeTag_false_unchanged[OF inv run] by auto
  then show ?thesis using inv run by simp
qed

section \<open>Runs on which the operations break the stated properties\<close>

text \<open>
  Claim C2 (not met by the code).  \<open>createTree(0,20); addTag(x,0,10); addTag(y,10,20)\<close>
  satisfies the invariants; \<open>addTag(x,5,15)\<close> then stretches the left neighbour over its
  sibling: the root's children are \<open>x[0,15)\<close> and \<open>y[10,20)\<close>, which overlap.  And
  \<open>createTree(0,4); addTag(a,0,2); addTag(b,0,3); removeTag(a,0,1)\<close> leaves the node
  \<open>a[1,2)\<close> with the child \<open>b[0,2)\<close>, which is not contained in it.
\<close>

theorem invariant_broken_by_operations:
  "tree_invariant (addTag (addTag (createTaggedIntervalTree 0 20) ''x'' 0 10) ''y'' 10 20)
   \<and> root (addTag (addTag (addTag (createTaggedIntervalTree 0 20) ''x'' 0 10) ''y'' 10 20) ''x'' 5 15)
       = IntervalNode 0 20 None [IntervalNode 0 15 (Some ''x'') [], IntervalNode 10 20 (Some ''y'') []]
   \<and> \<not> tree_invariant (addTag (addTag (addTag (createTaggedIntervalTree 0 20) ''x'' 0 10) ''y'' 10 20) ''x'' 5 15)
   \<and> tree_invariant (addTag (addTag (createTaggedIntervalTree 0 4) ''a'' 0 2) ''b'' 0 3)
   \<and> removeTag 4 (addTag (addTag (createTaggedIntervalTree 0 4) ''a'' 0 2) ''b'' 0 3) ''a'' 0 1
       = Some (True, \<lparr>root = IntervalNode 0 4 None
                 [IntervalNode 1 2 (Some ''a'') [IntervalNode 0 2 (Some ''b'') []],
                  IntervalNode 2 3 (Some ''b'') []]\<rparr>)
   \<and> \<not> nested (IntervalNode 0 4 None
                 [IntervalNode 1 2 (Some ''a'') [IntervalNode 0 2 (Some ''b'') []],
                  IntervalNode 2 3 (Some ''b'') []])"
  by code_simp

text \<open>
  Claim C4 (not met by the code).  The tree \<open>t\<close> reached by
  \<open>createTree(0,4); addTag(a,0,2); addTag(b,0,3); removeTag(a,0,1); removeTag(b,1,2)\<close>
  holds the empty node \<open>b[1,1)\<close> under \<open>a[1,2)\<close>.  \<open>addTag(t,b,1,2)\<close> is absorbed by that
  node through the right-neighbour merge, which does not extend its end, so the tree is
  unchanged, and \<open>removeTag(b,1,2)\<close> then returns false.
\<close>

theorem round_trip_fails:
  "removeTag 4 (addTag (addTag (createTaggedIntervalTree 0 4) ''a'' 0 2) ''b'' 0 3) ''a'' 0 1
     = Some (True, \<lparr>root = IntervalNode 0 4 None
                 [IntervalNode 1 2 (Some ''a'') [IntervalNode 0 2 (Some ''b'') []],
                  IntervalNode 2 3 (Some ''b'') []]\<rparr>)
   \<and> removeTag 4 \<lparr>root = IntervalNode 0 4 None
                 [IntervalNode 1 2 (Some ''a'') [IntervalNode 0 2 (Some ''b'') []],
                  IntervalNode 2 3 (Some ''b'') []]\<rparr> ''b'' 1 2
     = Some (True, \<lparr>root = IntervalNode 0 4 None
                 [IntervalNode 1 2 (Some ''a'') [IntervalNode 1 1 (Some ''b'') []],
                  IntervalNode 2 3 (Some ''b'') []]\<rparr>)
   \<and> addTag \<lparr>root = IntervalNode 0 4 None
                 [IntervalNode 1 2 (Some ''a'') [IntervalNode 1 1 (Some ''b'') []],
                  IntervalNode 2 3 (Some ''b'') []]\<rparr> ''b'' 1 2
     = \<lparr>root = IntervalNode 0 4 None
                 [IntervalNode 1 2 (Some ''a'') [IntervalNode 1 1 (Some ''b'') []],
                  IntervalNode 2 3 (Some ''b'') []]\<rparr>
   \<and> removeTag 4 \<lparr>root = IntervalNode 0 4 None
                 [IntervalNode 1 2 (Some ''a'') [IntervalNode 1 1 (Some ''b'') []],
                  IntervalNode 2 3 (Some ''b'') []]\<rparr> ''b'' 1 2
     = Some (False, \<lparr>root = IntervalNode 0 4 None
                 [IntervalNode 1 2 (Some ''a'') [IntervalNode 1 1 (Some ''b'') []],
                  IntervalNode 2 3 (Some ''b'') []]\<rparr>)"
  by code_simp

text \<open>
  Claim C7 (not met by the code).  On \<open>createTree(0,20); addTag(x,0,10)\<close> the first
  \<open>addTag(y,5,15)\<close> gives \<open>x[0,10)\<close> with the child \<open>y[5,10)\<close>, followed by \<open>y[10,15)\<close>;
  the second merges into the right neighbour and turns \<open>y[10,15)\<close> into \<open>y[5,15)\<close>.
\<close>

theorem addTag_twice_differs:
  "addTag (addTag (createTaggedIntervalTree 0 20) ''x'' 0 10) ''y'' 5 15
     = \<lparr>root = IntervalNode 0 20 None
          [IntervalNode 0 10 (Some ''x'') [IntervalNode 5 10 (Some ''y'') []],
           IntervalNode 10 15 (Some ''y'') []]\<rparr>
   \<and> addTag (addTag (addTag (createTaggedIntervalTree 0 20) ''x'' 0 10) ''y'' 5 15) ''y'' 5 15
     = \<lparr>root = IntervalNode 0 20 None
          [IntervalNode 0 10 (Some ''x'') [IntervalNode 5 10 (Some ''y'') []],
           IntervalNode 5 15 (Some ''y'') []]\<rparr>"
  by code_simp

section \<open>The order of the markers\<close>

text \<open>
  Where the subtraction does not overflow (both positions between 0 and \<^verbatim>\<open>INT_MAX\<close>),
  \<^verbatim>\<open>compareMarkers\<close> orders two markers by position and puts a closing marker before an
  opening marker at the same position.
\<close>

lemma wrap32_id: "- 2147483648 \<le> x \<Longrightarrow> x < 2147483648 \<Longrightarrow> wrap32 x = x"
  by (simp add: wrap32_def)

lemma compare_order:
  assumes "0 \<le> position a" "position a \<le> 2147483647" "0 \<le> position b" "position b \<le> 2147483647"
    and "compareMarkers a b \<le> 0 \<or> compareMarkers b a \<ge> 0"
  shows "position a \<le> position b \<and> (position a = position b \<longrightarrow> \<not> (isOpening a \<and> \<not> isOpening b))"
proof -
  have 1: "wrap32 (position a - position b) = position a - position b"
    using assms(1-4) by (intro wrap32_id) auto
  have 2: "wrap32 (position b - position a) = position b - position a"
    using assms(1-4) by (intro wrap32_id) auto
  show ?thesis
    using assms(5) by (auto simp: compareMarkers_def 1 2 split: if_splits)
qed

text \<open>
  \<^verbatim>\<open>compareMarkers\<close> never answers "equal" for two markers at one position: it calls each
  of two closing markers at one position smaller than the other.
\<close>

lemma compareMarkers_closers:
  "position a = position b \<Longrightarrow> \<not> isOpening a \<Longrightarrow> \<not> isOpening b
   \<Longrightarrow> compareMarkers a b = - 1 \<and> compareMarkers b a = - 1"
  by (simp add: compareMarkers_def)


section \<open>Insertion followed by the membership check\<close>

text \<open>The binary search returns the first index whose start is not below the value.\<close>

lemma fip_loop_spec:
  assumes srt: "sorted_wrt (<) (map interval0 cs)"
  shows "0 \<le> left \<Longrightarrow> right < int (length cs) \<Longrightarrow> left \<le> right + 1
    \<Longrightarrow> (\<forall>j. int j < left \<longrightarrow> interval0 (cs ! j) < v)
    \<Longrightarrow> (\<forall>j. right < int j \<and> j < length cs \<longrightarrow> v < interval0 (cs ! j))
    \<Longrightarrow> 0 \<le> fip_loop cs v left right \<and> fip_loop cs v left right \<le> int (length cs)
        \<and> (\<forall>j. int j < fip_loop cs v left right \<longrightarrow> interval0 (cs ! j) < v)
        \<and> (\<forall>j. fip_loop cs v left right \<le> int j \<and> j < length cs \<longrightarrow> v \<le> interval0 (cs ! j))"
proof (induction "nat (right - left + 1)" arbitrary: left right rule: less_induct)
  case less
  have mono: "\<And>i j. i < j \<Longrightarrow> j < length cs \<Longrightarrow> interval0 (cs ! i) < interval0 (cs ! j)"
    using srt by (simp add: sorted_wrt_iff_nth_less)
  note p = less.prems
  show ?case
  proof (cases "left \<le> right")
    case False
    have r: "fip_loop cs v left right = left" using False by (subst fip_loop.simps) simp
    have eq: "right + 1 = left" using False p(3) by simp
    have b: "\<forall>j. left \<le> int j \<and> j < length cs \<longrightarrow> v \<le> interval0 (cs ! j)"
    proof (intro allI impI)
      fix j assume "left \<le> int j \<and> j < length cs"
      then have "right < int j \<and> j < length cs" using eq by linarith
      then show "v \<le> interval0 (cs ! j)" using p(5) by (simp add: less_imp_le)
    qed
    have "left \<le> int (length cs)" using eq p(2) by linarith
    then show ?thesis unfolding r using p(1) p(4) b by blast
  next
    case True
    define mid where "mid = (left + right) div 2"
    have midb: "left \<le> mid" "mid \<le> right" using True by (simp_all add: mid_def)
    have midn: "nat mid < length cs" using midb p(1,2) by linarith
    have midi: "int (nat mid) = mid" using midb p(1) by linarith
    consider (eq) "interval0 (cs ! nat mid) = v" | (lt) "interval0 (cs ! nat mid) < v"
      | (gt) "v < interval0 (cs ! nat mid)"
      by linarith
    then show ?thesis
    proof cases
      case eq
      have r: "fip_loop cs v left right = mid"
        using True eq by (subst fip_loop.simps) (simp add: mid_def Let_def)
      have a: "\<forall>j. int j < mid \<longrightarrow> interval0 (cs ! j) < v"
      proof (intro allI impI)
        fix j assume "int j < mid"
        then have "j < nat mid" by linarith
        then show "interval0 (cs ! j) < v" using mono[of j "nat mid"] midn eq by simp
      qed
      have b: "\<forall>j. mid \<le> int j \<and> j < length cs \<longrightarrow> v \<le> interval0 (cs ! j)"
      proof (intro allI impI)
        fix j assume j: "mid \<le> int j \<and> j < length cs"
        show "v \<le> interval0 (cs ! j)"
        proof (cases "j = nat mid")
          case True then show ?thesis using eq by simp
        next
          case False
          then have "nat mid < j" using j midi by linarith
          then show ?thesis using mono[of "nat mid" j] j eq by simp
        qed
      qed
      have c: "0 \<le> mid" "mid \<le> int (length cs)" using midb p(1) midn midi by linarith+
      show ?thesis unfolding r using a b c by blast
    next
      case lt
      have r: "fip_loop cs v left right = fip_loop cs v (mid + 1) right"
        using True lt by (subst fip_loop.simps) (simp add: mid_def Let_def)
      have pre: "\<forall>j. int j < mid + 1 \<longrightarrow> interval0 (cs ! j) < v"
      proof (intro allI impI)
        fix j assume "int j < mid + 1"
        then have "j \<le> nat mid" by linarith
        then show "interval0 (cs ! j) < v"
          using mono[of j "nat mid"] midn lt by (cases "j = nat mid") auto
      qed
      have m: "nat (right - (mid + 1) + 1) < nat (right - left + 1)" using midb by linarith
      have q: "0 \<le> mid + 1" "mid + 1 \<le> right + 1" using midb p(1) by linarith+
      show ?thesis unfolding r by (rule less.hyps[OF m q(1) p(2) q(2) pre p(5)])
    next
      case gt
      have r: "fip_loop cs v left right = fip_loop cs v left (mid - 1)"
        using True gt by (subst fip_loop.simps) (simp add: mid_def Let_def)
      have post: "\<forall>j. mid - 1 < int j \<and> j < length cs \<longrightarrow> v < interval0 (cs ! j)"
      proof (intro allI impI)
        fix j assume j: "mid - 1 < int j \<and> j < length cs"
        then have "nat mid \<le> j" by linarith
        then show "v < interval0 (cs ! j)"
          using mono[of "nat mid" j] midn gt j by (cases "j = nat mid") auto
      qed
      have m: "nat (mid - 1 - left + 1) < nat (right - left + 1)" using midb by linarith
      have q: "mid - 1 < int (length cs)" "left \<le> mid - 1 + 1" using midb p(2) by linarith+
      show ?thesis unfolding r by (rule less.hyps[OF m p(1) q(1) q(2) p(4) post])
    qed
  qed
qed

lemma fip_spec:
  assumes "sorted_wrt (<) (map interval0 cs)"
  shows "findInsertionPoint cs v \<le> length cs
     \<and> (\<forall>j. j < findInsertionPoint cs v \<longrightarrow> interval0 (cs ! j) < v)
     \<and> (\<forall>j. findInsertionPoint cs v \<le> j \<and> j < length cs \<longrightarrow> v \<le> interval0 (cs ! j))"
proof (cases "cs = []")
  case True
  then show ?thesis by (simp add: findInsertionPoint_def)
next
  case False
  have "0 \<le> fip_loop cs v 0 (int (length cs) - 1) \<and> fip_loop cs v 0 (int (length cs) - 1) \<le> int (length cs)
        \<and> (\<forall>j. int j < fip_loop cs v 0 (int (length cs) - 1) \<longrightarrow> interval0 (cs ! j) < v)
        \<and> (\<forall>j. fip_loop cs v 0 (int (length cs) - 1) \<le> int j \<and> j < length cs \<longrightarrow> v \<le> interval0 (cs ! j))"
    by (rule fip_loop_spec[OF assms]) auto
  then show ?thesis using False by (auto simp: findInsertionPoint_def)
qed

text \<open>
  The membership check at a node finds a child that contains the query and answers true,
  when the starts of the children are ascending.
\<close>

lemma checkTagDFS_self:
  "tag node = Some tg \<Longrightarrow> interval0 node \<le> s \<Longrightarrow> e \<le> interval1 node \<Longrightarrow> checkTagDFS node tg s e"
  by (subst checkTagDFS.simps) simp

lemma checkTagDFS_mid:
  assumes srt: "sorted_wrt (<) (map interval0 (pre @ x # post))"
    and x: "interval0 x \<le> a" "b \<le> interval1 x" "checkTagDFS x tg a b" and ab: "a < b"
    and post: "\<forall>y\<in>set post. a \<le> interval0 y"
  shows "checkTagDFS (IntervalNode A B t (pre @ x # post)) tg a b"
proof -
  let ?cs = "pre @ x # post"
  let ?p = "length pre"
  define i0 where "i0 = findInsertionPoint ?cs a"
  define i where "i = (if i0 > 0 \<and> interval1 (?cs ! (i0 - 1)) > a then i0 - 1 else i0)"
  have spec: "i0 \<le> length ?cs" "\<forall>j. j < i0 \<longrightarrow> interval0 (?cs ! j) < a"
    using fip_spec[OF srt, of a] by (simp_all add: i0_def)
  have i0: "i0 \<le> Suc ?p"
  proof (rule ccontr)
    assume "\<not> i0 \<le> Suc ?p"
    then have lt: "Suc ?p < i0" by simp
    then have small: "interval0 (?cs ! Suc ?p) < a" using spec(2) by blast
    have "Suc ?p < length ?cs" using lt spec(1) by linarith
    then have ne: "post \<noteq> []" by auto
    have "?cs ! Suc ?p = post ! 0" by (simp add: nth_append)
    then have "?cs ! Suc ?p \<in> set post" using ne by simp
    then show False using post small by fastforce
  qed
  have xp: "?cs ! ?p = x" by simp
  have ip: "i \<le> ?p"
  proof (cases "i0 = Suc ?p")
    case True
    then have "interval1 (?cs ! (i0 - 1)) > a" using xp x(2) ab by simp
    then show ?thesis using True by (simp add: i_def)
  next
    case False
    then have "i0 \<le> ?p" using i0 by linarith
    then show ?thesis by (auto simp: i_def)
  qed
  have "?p - i < length (drop i ?cs)" using ip by simp
  then have "drop i ?cs ! (?p - i) \<in> set (drop i ?cs)" by (rule nth_mem)
  moreover have "drop i ?cs ! (?p - i) = x" using ip by (simp add: nth_append)
  ultimately have "x \<in> set (drop i ?cs)" by simp
  moreover have "\<not> (b \<le> interval0 x \<or> a \<ge> interval1 x) \<and> checkTagDFS x tg a b"
    using x ab by auto
  ultimately have LE: "list_ex (\<lambda>child. \<not> (b \<le> interval0 child \<or> a \<ge> interval1 child)
                              \<and> checkTagDFS child tg a b) (drop i ?cs)"
    unfolding list_ex_iff by blast
  have E: "checkTagDFS (IntervalNode A B t ?cs) tg a b =
     (if t = Some tg \<and> A \<le> a \<and> B \<ge> b then True
      else list_ex (\<lambda>child. \<not> (b \<le> interval0 child \<or> a \<ge> interval1 child)
                              \<and> checkTagDFS child tg a b) (drop i ?cs))"
    unfolding i_def i0_def
    by (subst checkTagDFS.simps) (simp only: Let_def IntervalNode.sel)
  show ?thesis
  proof (cases "t = Some tg \<and> A \<le> a \<and> B \<ge> b")
    case True
    then show ?thesis unfolding E by simp
  next
    case False
    then show ?thesis unfolding E using LE by (simp only: if_False)
  qed
qed

lemma strict_starts:
  assumes "sorted_wrt (\<lambda>c d. interval1 c \<le> interval0 d) cs" "\<forall>c\<in>set cs. interval0 c < interval1 c"
  shows "sorted_wrt (\<lambda>c d. interval0 c < interval0 d) cs"
  by (rule sorted_wrt_mono_rel[OF _ assms(1)]) (use assms(2) in fastforce)

lemma sorted_wrt_splice:
  assumes srt: "sorted_wrt Q cs" and km: "k \<le> m"
    and before: "\<forall>y\<in>set (take k cs). Q y x" and after: "\<forall>y\<in>set (drop m cs). Q x y"
  shows "sorted_wrt Q (take k cs @ x # drop m cs)"
proof -
  have cross: "\<forall>y1\<in>set (take k cs). \<forall>y2\<in>set (drop m cs). Q y1 y2"
  proof (intro ballI)
    fix y1 y2 assume "y1 \<in> set (take k cs)" "y2 \<in> set (drop m cs)"
    then obtain i j where i: "i < length (take k cs)" "take k cs ! i = y1"
      and j: "j < length (drop m cs)" "drop m cs ! j = y2"
      by (metis in_set_conv_nth)
    have "cs ! i = y1" "i < k" using i by auto
    moreover have "cs ! (m + j) = y2" "m + j < length cs" using j by auto
    ultimately show "Q y1 y2"
      using srt km sorted_wrt_nth_less[of Q cs i "m + j"] by auto
  qed
  show ?thesis
    using srt cross before after
    by (simp add: sorted_wrt_append sorted_wrt_take sorted_wrt_drop)
qed

text \<open>The outcomes of \<^verbatim>\<open>tryMergeWithNeighbors\<close>.\<close>

lemma tryMerge_L:
  assumes "findInsertionPoint cs a = Suc k" "Suc k \<le> length cs" "tag (cs ! k) = Some tg"
    "a \<le> interval1 (cs ! k)"
  shows "tryMergeWithNeighbors (IntervalNode A B t cs) a b tg =
     (True, IntervalNode A B t
        (if Suc k < length cs \<and> tag (cs ! Suc k) = Some tg
            \<and> interval0 (cs ! Suc k) \<le> max (interval1 (cs ! k)) b
         then remove_at (Suc k)
                (cs[k := IntervalNode (interval0 (cs ! k))
                           (max (max (interval1 (cs ! k)) b) (interval1 (cs ! Suc k))) (Some tg)
                           (children (cs ! k) @ children (cs ! Suc k))])
         else cs[k := IntervalNode (interval0 (cs ! k)) (max (interval1 (cs ! k)) b) (Some tg)
                        (children (cs ! k))]))"
proof -
  have "cs \<noteq> []" using assms(2) by auto
  then show ?thesis
    using assms by (auto simp add: tryMergeWithNeighbors_def Let_def set_interval1_def set_children_def)
qed

lemma tryMerge_right:
  assumes "findInsertionPoint cs a = idx" "idx < length cs"
    "\<not> (idx > 0 \<and> tag (cs ! (idx - 1)) = Some tg \<and> a \<le> interval1 (cs ! (idx - 1)))"
    "tag (cs ! idx) = Some tg" "interval0 (cs ! idx) \<le> b" "a \<le> interval0 (cs ! idx)"
  shows "tryMergeWithNeighbors (IntervalNode A B t cs) a b tg =
     (True, IntervalNode A B t (cs[idx := IntervalNode a (interval1 (cs ! idx)) (Some tg) (children (cs ! idx))]))"
proof -
  have "cs \<noteq> []" using assms(2) by auto
  moreover have "min (interval0 (cs ! idx)) a = a" using assms(6) by simp
  ultimately show ?thesis
    using assms by (auto simp add: tryMergeWithNeighbors_def Let_def set_interval0_def set_children_def)
qed

lemma tryMerge_none:
  assumes "findInsertionPoint cs a = idx"
    "\<not> (idx > 0 \<and> tag (cs ! (idx - 1)) = Some tg \<and> a \<le> interval1 (cs ! (idx - 1)))"
    "\<not> (idx < length cs \<and> tag (cs ! idx) = Some tg \<and> interval0 (cs ! idx) \<le> b)"
  shows "tryMergeWithNeighbors (IntervalNode A B t cs) a b tg = (False, IntervalNode A B t cs)"
  using assms by (auto simp add: tryMergeWithNeighbors_def Let_def)

text \<open>
  \<^verbatim>\<open>tryMergeWithNeighbors\<close>, the insertion loop and \<^verbatim>\<open>addTagDFS\<close> leave the interval
  of the node as it is.
\<close>

lemma tryMerge_keeps:
  "interval0 (snd (tryMergeWithNeighbors n s e tg)) = interval0 n
   \<and> interval1 (snd (tryMergeWithNeighbors n s e tg)) = interval1 n"
  by (simp add: tryMergeWithNeighbors_def Let_def set_children_def)

lemma insertPoints_keeps:
  "interval0 (insertPoints tg n pts) = interval0 n \<and> interval1 (insertPoints tg n pts) = interval1 n"
  by (induction pts arbitrary: n) (simp_all add: tryMerge_keeps set_children_def)

lemma addTagDFS_interval0: "interval0 (addTagDFS n tg s e) = interval0 n"
  by (subst addTagDFS.simps)
     (simp add: Let_def addChildToNode_def tryMerge_keeps insertPoints_keeps set_children_def
           split: prod.splits)

lemma addTagDFS_interval1: "interval1 (addTagDFS n tg s e) = interval1 n"
  by (subst addTagDFS.simps)
     (simp add: Let_def addChildToNode_def tryMerge_keeps insertPoints_keeps set_children_def
           split: prod.splits)

text \<open>
  The three ways in which \<^verbatim>\<open>addTagDFS\<close> places an interval that it does not split: a
  merge with a neighbour, a new node in a gap between the children, and the descent into
  the one child that contains the interval.
\<close>

lemma addTagDFS_merged:
  assumes "max a A = a" "min b B = b" "a < b" "t \<noteq> Some tg" "cs \<noteq> []"
    and "tryMergeWithNeighbors (IntervalNode A B t cs) a b tg = (True, n')"
  shows "addTagDFS (IntervalNode A B t cs) tg a b = n'"
  using assms by (subst addTagDFS.simps) (simp add: Let_def)

lemma addTagDFS_inserted:
  assumes mx: "max a A = a" "min b B = b" "a < b" and nt: "t \<noteq> Some tg" and ne: "cs \<noteq> []"
    and tm: "tryMergeWithNeighbors (IntervalNode A B t cs) a b tg = (False, IntervalNode A B t cs)"
    and idx: "findInsertionPoint cs a = idx" "idx \<le> length cs"
    and nstep: "\<not> (idx > 0 \<and> interval1 (cs ! (idx - 1)) > a)"
    and gap: "idx < length cs \<longrightarrow> b \<le> interval0 (cs ! idx)"
  shows "addTagDFS (IntervalNode A B t cs) tg a b
         = IntervalNode A B t (insert_at idx (createIntervalNode a b (Some tg)) cs)"
proof -
  have ins: "insertPoints tg (IntervalNode A B t cs) [\<lparr>ip_index = idx, ip_start = a, ip_end = b\<rparr>]
             = IntervalNode A B t (insert_at idx (createIntervalNode a b (Some tg)) cs)"
    by (simp add: tm set_children_def)
  have i: "(if idx > 0 \<and> interval1 (cs ! (idx - 1)) > a then idx - 1 else idx) = idx"
    using nstep by auto
  have nba: "\<not> b \<le> a" using mx(3) by simp
  show ?thesis
  proof (cases "idx < length cs")
    case True
    have first: "a < interval0 (cs ! idx)" "min (interval0 (cs ! idx)) b = b"
      using gap True mx(3) by auto
    have sw: "\<And>rec pts. sweep rec b cs idx b pts = (cs, b, pts)"
      by (rule sweep_stop) simp
    show ?thesis
      apply (subst addTagDFS.simps)
      apply (simp only: Let_def IntervalNode.sel mx idx i)
      apply (simp add: nt ne tm True first sw ins set_children_def mx nba)
      done
  next
    case False
    then have il: "idx = length cs" using idx(2) by simp
    have i0: "idx \<noteq> 0" using il ne by simp
    have sw: "\<And>rec pts. sweep rec b cs idx a pts = (cs, a, pts)"
      by (rule sweep_stop) (simp add: il)
    show ?thesis
      apply (subst addTagDFS.simps)
      apply (simp only: Let_def IntervalNode.sel mx idx i)
      apply (simp add: nt ne tm False sw ins set_children_def mx nba il[symmetric] i0)
      done
  qed
qed

lemma addTagDFS_descend:
  assumes mx: "max a A = a" "min b B = b" "a < b" and nt: "t \<noteq> Some tg" and ne: "cs \<noteq> []"
    and tm: "tryMergeWithNeighbors (IntervalNode A B t cs) a b tg = (False, IntervalNode A B t cs)"
    and idx: "findInsertionPoint cs a = idx"
    and i: "(if idx > 0 \<and> interval1 (cs ! (idx - 1)) > a then idx - 1 else idx) = k"
    and k: "k < length cs" "interval0 (cs ! k) \<le> a" "b \<le> interval1 (cs ! k)"
  shows "addTagDFS (IntervalNode A B t cs) tg a b
         = IntervalNode A B t (cs[k := addTagDFS (cs ! k) tg a b])"
proof -
  let ?rec = "\<lambda>child pos. addTagDFS child tg pos b"
  let ?cs1 = "cs[k := addTagDFS (cs ! k) tg a b]"
  have keep: "interval1 (addTagDFS (cs ! k) tg a b) = interval1 (cs ! k)"
    by (rule addTagDFS_interval1)
  have stop: "\<And>pts. sweep ?rec b ?cs1 (k + 1) (interval1 (cs ! k)) pts = (?cs1, interval1 (cs ! k), pts)"
    by (rule sweep_stop) (use k in simp)
  have sw: "sweep ?rec b cs k a [] = (?cs1, interval1 (cs ! k), [])"
    using k mx(3) keep stop by (subst sweep_step) (simp_all add: Let_def)
  have nfirst: "\<not> a < interval0 (cs ! k)" "\<not> interval1 (cs ! k) < b" using k by simp_all
  have nba: "\<not> b \<le> a" using mx(3) by simp
  show ?thesis
    apply (subst addTagDFS.simps)
    apply (simp only: Let_def IntervalNode.sel mx idx i)
    apply (simp add: nt ne tm nfirst sw set_children_def mx nba)
    done
qed

text \<open>A node that carries the tag is left as it is and answers the query itself.\<close>

lemma addTagDFS_same_tag:
  assumes "tag node = Some tg" "interval0 node \<le> a" "a < b" "b \<le> interval1 node"
  shows "checkTagDFS (addTagDFS node tg a b) tg a b"
proof -
  have "addTagDFS node tg a b = node"
    using assms by (subst addTagDFS.simps) (simp add: Let_def)
  then show ?thesis using checkTagDFS_self[of node tg a b] assms by simp
qed

text \<open>
  One level: the property holds at a node when a child that carries the tag absorbs the
  interval, or when every child either misses \<open>[a, b)\<close> or contains it and the property
  holds below that child.
\<close>

lemma addTagDFS_level:
  assumes d: "A \<le> a" "a < b" "b \<le> B"
    and s: "sorted_wrt (\<lambda>c d. interval1 c \<le> interval0 d) cs"
    and ne: "\<forall>c\<in>set cs. interval0 c < interval1 c"
    and f: "(\<exists>c\<in>set cs. tag c = Some tg \<and> interval0 c < a \<and> a \<le> interval1 c)
          \<or> (\<exists>c\<in>set cs. tag c = Some tg \<and> a \<le> interval0 c \<and> interval0 c \<le> b \<and> b \<le> interval1 c
                \<and> (\<forall>d\<in>set cs. interval0 d < a \<or> interval0 c \<le> interval0 d))
          \<or> (\<forall>c\<in>set cs. interval1 c \<le> a \<or> b \<le> interval0 c
                \<or> (interval0 c \<le> a \<and> b \<le> interval1 c \<and> checkTagDFS (addTagDFS c tg a b) tg a b))"
  shows "checkTagDFS (addTagDFS (IntervalNode A B t cs) tg a b) tg a b"
proof -
  let ?node = "IntervalNode A B t cs"
  have mx: "max a A = a" "min b B = b" "\<not> b \<le> a" using d by auto
  let ?Q = "\<lambda>c d. interval0 c < interval0 d"
  have st: "sorted_wrt ?Q cs" using strict_starts s ne by simp
  have st': "sorted_wrt (<) (map interval0 cs)" using st by (simp add: sorted_wrt_map)
  show ?thesis
  proof (cases "t = Some tg")
    case True
    have "addTagDFS ?node tg a b = ?node"
      by (subst addTagDFS.simps) (simp add: Let_def mx True)
    then show ?thesis using checkTagDFS_self[of ?node tg a b] True d by simp
  next
    case nt: False
    define new where "new = IntervalNode a b (Some tg) []"
    define idx where "idx = findInsertionPoint cs a"
    have idxn: "idx \<le> length cs"
      and lo: "\<And>j. j < idx \<Longrightarrow> interval0 (cs ! j) < a"
      and hi: "\<And>j. idx \<le> j \<Longrightarrow> j < length cs \<Longrightarrow> a \<le> interval0 (cs ! j)"
      using fip_spec[OF st', of a] by (simp_all add: idx_def)
    have cf: "\<And>j. j < length cs \<Longrightarrow> interval0 (cs ! j) < interval1 (cs ! j)"
      using ne by simp
    have lo_set: "\<forall>y\<in>set (take idx cs). interval0 y < a"
      using lo idxn by (auto simp: in_set_conv_nth)
    have hi_set: "\<And>m. idx \<le> m \<Longrightarrow> \<forall>y\<in>set (drop m cs). a \<le> interval0 y"
      using hi by (auto simp: in_set_conv_nth)
    have before_strict: "\<And>j. j < length cs \<Longrightarrow> \<forall>y\<in>set (take j cs). interval0 y < interval0 (cs ! j)"
    proof
      fix j y assume j: "j < length cs" and "y \<in> set (take j cs)"
      then obtain i where "i < j" "cs ! i = y" by (auto simp: in_set_conv_nth)
      then show "interval0 y < interval0 (cs ! j)"
        using sorted_wrt_nth_less[OF st, of i j] j by auto
    qed
    have after_strict: "\<And>j m. j < m \<Longrightarrow> \<forall>y\<in>set (drop m cs). interval0 (cs ! j) < interval0 y"
    proof
      fix j m y assume jm: "j < m" and "y \<in> set (drop m cs)"
      then obtain i where i: "i < length cs - m" "cs ! (m + i) = y" by (auto simp: in_set_conv_nth)
      have "j < m + i" "m + i < length cs" using jm i by simp_all
      then show "interval0 (cs ! j) < interval0 y"
        using sorted_wrt_nth_less[OF st, of j "m + i"] i by auto
    qed
    have after_end: "\<And>j m. j < m \<Longrightarrow> \<forall>y\<in>set (drop m cs). interval1 (cs ! j) \<le> interval0 y"
    proof
      fix j m y assume jm: "j < m" and "y \<in> set (drop m cs)"
      then obtain i where i: "i < length cs - m" "cs ! (m + i) = y" by (auto simp: in_set_conv_nth)
      have "j < m + i" "m + i < length cs" using jm i by simp_all
      then show "interval1 (cs ! j) \<le> interval0 y"
        using sorted_wrt_nth_less[OF s, of j "m + i"] i by auto
    qed
    have fin: "\<And>k m x. k \<le> m \<Longrightarrow> \<forall>y\<in>set (take k cs). interval0 y < interval0 x
        \<Longrightarrow> \<forall>y\<in>set (drop m cs). interval0 x < interval0 y \<Longrightarrow> \<forall>y\<in>set (drop m cs). a \<le> interval0 y
        \<Longrightarrow> interval0 x \<le> a \<Longrightarrow> b \<le> interval1 x \<Longrightarrow> checkTagDFS x tg a b
        \<Longrightarrow> checkTagDFS (IntervalNode A B t (take k cs @ x # drop m cs)) tg a b"
    proof -
      fix k m x
      assume h: "k \<le> m" "\<forall>y\<in>set (take k cs). interval0 y < interval0 x"
        "\<forall>y\<in>set (drop m cs). interval0 x < interval0 y" "\<forall>y\<in>set (drop m cs). a \<le> interval0 y"
        "interval0 x \<le> a" "b \<le> interval1 x" "checkTagDFS x tg a b"
      have "sorted_wrt ?Q (take k cs @ x # drop m cs)"
        by (rule sorted_wrt_splice[OF st h(1) h(2) h(3)])
      then have "sorted_wrt (<) (map interval0 (take k cs @ x # drop m cs))"
        by (simp only: sorted_wrt_map)
      then show "checkTagDFS (IntervalNode A B t (take k cs @ x # drop m cs)) tg a b"
        by (rule checkTagDFS_mid[OF _ h(5) h(6) h(7) d(2) h(4)])
    qed
    show ?thesis
    proof (cases "cs = []")
      case True
      have "addTagDFS ?node tg a b = IntervalNode A B t (take 0 cs @ new # drop 0 cs)"
        unfolding True new_def using nt
        by (subst addTagDFS.simps)
           (simp add: Let_def mx addChildToNode_def createIntervalNode_def set_children_def)
      moreover have "checkTagDFS new tg a b" by (rule checkTagDFS_self) (simp_all add: new_def)
      ultimately show ?thesis using fin[of 0 0 new] True by (simp add: new_def)
    next
      case ne: False
      define L where "L = (idx > 0 \<and> tag (cs ! (idx - 1)) = Some tg \<and> interval1 (cs ! (idx - 1)) \<ge> a)"
      define R where "R = (idx < length cs \<and> tag (cs ! idx) = Some tg \<and> b \<ge> interval0 (cs ! idx))"
      have Lif: "\<exists>c\<in>set cs. tag c = Some tg \<and> interval0 c < a \<and> a \<le> interval1 c \<Longrightarrow> L"
      proof -
        assume "\<exists>c\<in>set cs. tag c = Some tg \<and> interval0 c < a \<and> a \<le> interval1 c"
        then obtain j where j: "j < length cs" "tag (cs ! j) = Some tg" "interval0 (cs ! j) < a"
          "a \<le> interval1 (cs ! j)"
          by (auto simp: in_set_conv_nth)
        have 1: "j < idx"
        proof (rule ccontr)
          assume "\<not> j < idx"
          then have "a \<le> interval0 (cs ! j)" using hi[of j] j(1) by simp
          then show False using j(3) by simp
        qed
        have 2: "idx \<le> Suc j"
        proof (rule ccontr)
          assume "\<not> idx \<le> Suc j"
          then have lt: "Suc j < idx" by simp
          then have sl: "Suc j < length cs" using idxn by simp
          have "interval0 (cs ! Suc j) < a" using lo[OF lt] .
          moreover have "interval1 (cs ! j) \<le> interval0 (cs ! Suc j)"
            using sorted_wrt_nth_less[OF s, of j "Suc j"] sl by simp
          ultimately show False using j(4) by linarith
        qed
        have "idx = Suc j" using 1 2 by simp
        then show L using j by (simp add: L_def)
      qed
      have Rif: "\<exists>c\<in>set cs. tag c = Some tg \<and> a \<le> interval0 c \<and> interval0 c \<le> b \<and> b \<le> interval1 c
                \<and> (\<forall>d\<in>set cs. interval0 d < a \<or> interval0 c \<le> interval0 d)
            \<Longrightarrow> R \<and> b \<le> interval1 (cs ! idx)"
      proof -
        assume "\<exists>c\<in>set cs. tag c = Some tg \<and> a \<le> interval0 c \<and> interval0 c \<le> b \<and> b \<le> interval1 c
                \<and> (\<forall>d\<in>set cs. interval0 d < a \<or> interval0 c \<le> interval0 d)"
        then obtain j where j: "j < length cs" "tag (cs ! j) = Some tg" "a \<le> interval0 (cs ! j)"
          "interval0 (cs ! j) \<le> b" "b \<le> interval1 (cs ! j)"
          and first: "\<forall>d\<in>set cs. interval0 d < a \<or> interval0 (cs ! j) \<le> interval0 d"
          by (auto simp: in_set_conv_nth)
        have 1: "idx \<le> j"
        proof (rule ccontr)
          assume "\<not> idx \<le> j"
          then have "interval0 (cs ! j) < a" using lo[of j] by simp
          then show False using j(3) by simp
        qed
        have 2: "j \<le> idx"
        proof (rule ccontr)
          assume "\<not> j \<le> idx"
          then have lt: "idx < j" by simp
          then have il: "idx < length cs" using j(1) by simp
          have "a \<le> interval0 (cs ! idx)" using hi[of idx] il by simp
          moreover have "cs ! idx \<in> set cs" using il by simp
          ultimately have "interval0 (cs ! j) \<le> interval0 (cs ! idx)" using first by fastforce
          moreover have "interval0 (cs ! idx) < interval0 (cs ! j)"
            using sorted_wrt_nth_less[OF st, of idx j] lt j(1) by simp
          ultimately show False by simp
        qed
        have "idx = j" using 1 2 by simp
        then show "R \<and> b \<le> interval1 (cs ! idx)" using j by (simp add: R_def)
      qed
      have f3: "\<not> L \<Longrightarrow> \<not> (R \<and> b \<le> interval1 (cs ! idx))
          \<Longrightarrow> \<forall>c\<in>set cs. interval1 c \<le> a \<or> b \<le> interval0 c
                \<or> (interval0 c \<le> a \<and> b \<le> interval1 c \<and> checkTagDFS (addTagDFS c tg a b) tg a b)"
        using f Lif Rif by blast
      show ?thesis
      proof (cases L)
        case True
        then obtain k where k: "idx = Suc k" by (cases idx) (auto simp: L_def)
        have kl: "k < length cs" using k idxn by simp
        have l: "tag (cs ! k) = Some tg" "a \<le> interval1 (cs ! k)"
          using True k by (auto simp: L_def)
        define E1 where "E1 = max (interval1 (cs ! k)) b"
        define RR where "RR = (Suc k < length cs \<and> tag (cs ! Suc k) = Some tg \<and> interval0 (cs ! Suc k) \<le> E1)"
        define merged where "merged = IntervalNode (interval0 (cs ! k)) (max E1 (interval1 (cs ! Suc k))) (Some tg)
                   (children (cs ! k) @ children (cs ! Suc k))"
        define left' where "left' = IntervalNode (interval0 (cs ! k)) E1 (Some tg) (children (cs ! k))"
        have tm: "tryMergeWithNeighbors ?node a b tg
                  = (True, IntervalNode A B t (if RR then remove_at (Suc k) (cs[k := merged]) else cs[k := left']))"
          unfolding RR_def merged_def left'_def E1_def
          by (rule tryMerge_L) (use k l idxn in \<open>simp_all add: idx_def\<close>)
        have res: "addTagDFS ?node tg a b
                  = IntervalNode A B t (if RR then remove_at (Suc k) (cs[k := merged]) else cs[k := left'])"
          by (rule addTagDFS_merged[OF mx(1,2) d(2) nt ne tm])
        have prek: "\<forall>y\<in>set (take k cs). interval0 y < interval0 (cs ! k)"
          by (rule before_strict[OF kl])
        show ?thesis
        proof (cases RR)
          case r: True
          have i: "Suc k < length cs" using r by (simp add: RR_def)
          have "take (Suc k) (cs[k := merged]) = take k cs @ [merged]"
            using i by (simp add: take_Suc_conv_app_nth)
          then have shape: "remove_at (Suc k) (cs[k := merged]) = take k cs @ merged # drop (Suc (Suc k)) cs"
            using i by (simp add: remove_at_def)
          have m: "interval0 merged = interval0 (cs ! k)" "b \<le> interval1 merged" "tag merged = Some tg"
            by (simp_all add: merged_def E1_def)
          have c: "checkTagDFS merged tg a b"
            by (rule checkTagDFS_self) (use m lo[of k] k in simp_all)
          have "checkTagDFS (IntervalNode A B t (take k cs @ merged # drop (Suc (Suc k)) cs)) tg a b"
            by (rule fin) (use prek after_strict[of k "Suc (Suc k)"] hi_set[of "Suc (Suc k)"] m c lo[of k] k in simp_all)
          then show ?thesis unfolding res using r shape by simp
        next
          case r: False
          have shape: "cs[k := left'] = take k cs @ left' # drop (Suc k) cs"
            using kl by (simp add: upd_conv_take_nth_drop)
          have m: "interval0 left' = interval0 (cs ! k)" "b \<le> interval1 left'" "tag left' = Some tg"
            by (simp_all add: left'_def E1_def)
          have c: "checkTagDFS left' tg a b"
            by (rule checkTagDFS_self) (use m lo[of k] k in simp_all)
          have "checkTagDFS (IntervalNode A B t (take k cs @ left' # drop (Suc k) cs)) tg a b"
            by (rule fin) (use prek after_strict[of k "Suc k"] hi_set[of "Suc k"] m c lo[of k] k in simp_all)
          then show ?thesis unfolding res using r shape by simp
        qed
      next
        case nl: False
        show ?thesis
        proof (cases R)
          case True
          then have r: "idx < length cs" "tag (cs ! idx) = Some tg" "interval0 (cs ! idx) \<le> b"
            by (simp_all add: R_def)
          define right' where "right' = IntervalNode a (interval1 (cs ! idx)) (Some tg) (children (cs ! idx))"
          have tm: "tryMergeWithNeighbors ?node a b tg = (True, IntervalNode A B t (cs[idx := right']))"
            unfolding right'_def
            by (rule tryMerge_right) (use r nl hi[of idx] in \<open>simp_all add: L_def idx_def\<close>)
          have shape: "cs[idx := right'] = take idx cs @ right' # drop (Suc idx) cs"
            using r(1) by (simp add: upd_conv_take_nth_drop)
          have res: "addTagDFS ?node tg a b = IntervalNode A B t (take idx cs @ right' # drop (Suc idx) cs)"
            using addTagDFS_merged[OF mx(1,2) d(2) nt ne tm] shape by simp
          have rp: "b \<le> interval1 (cs ! idx)"
          proof (rule ccontr)
            assume n: "\<not> b \<le> interval1 (cs ! idx)"
            have "cs ! idx \<in> set cs" using r(1) by simp
            then have "interval1 (cs ! idx) \<le> a \<or> b \<le> interval0 (cs ! idx)
                \<or> (interval0 (cs ! idx) \<le> a \<and> b \<le> interval1 (cs ! idx))"
              using f3 nl n by blast
            then show False using n hi[of idx] cf[of idx] r(1) by linarith
          qed
          have m: "interval0 right' = a" "b \<le> interval1 right'" "tag right' = Some tg"
            using rp by (simp_all add: right'_def)
          have c: "checkTagDFS right' tg a b"
            by (rule checkTagDFS_self) (use m in simp_all)
          have aft: "\<forall>y\<in>set (drop (Suc idx) cs). a < interval0 y"
            using after_strict[of idx "Suc idx"] hi[of idx] r(1) by fastforce
          have "checkTagDFS (IntervalNode A B t (take idx cs @ right' # drop (Suc idx) cs)) tg a b"
            by (rule fin) (use lo_set aft hi_set[of "Suc idx"] m c in simp_all)
          then show ?thesis unfolding res .
        next
          case nr: False
          have f3': "\<forall>c\<in>set cs. interval1 c \<le> a \<or> b \<le> interval0 c
                \<or> (interval0 c \<le> a \<and> b \<le> interval1 c \<and> checkTagDFS (addTagDFS c tg a b) tg a b)"
            using f3 nl nr by blast
          have tm: "tryMergeWithNeighbors ?node a b tg = (False, ?node)"
            by (rule tryMerge_none[where idx = idx]) (use nl nr in \<open>simp_all add: L_def R_def idx_def\<close>)
          show ?thesis
          proof (cases "\<forall>j<length cs. interval1 (cs ! j) \<le> a \<or> b \<le> interval0 (cs ! j)")
            case gap: True
            have lo_end: "\<And>j. j < idx \<Longrightarrow> interval1 (cs ! j) \<le> a"
            proof -
              fix j assume j: "j < idx"
              then have "j < length cs" using idxn by simp
              then show "interval1 (cs ! j) \<le> a" using gap lo[OF j] d(2) by fastforce
            qed
            have hi_start: "\<And>j. idx \<le> j \<Longrightarrow> j < length cs \<Longrightarrow> b \<le> interval0 (cs ! j)"
            proof -
              fix j assume j: "idx \<le> j" "j < length cs"
              then show "b \<le> interval0 (cs ! j)" using gap hi[OF j] cf[OF j(2)] by fastforce
            qed
            have nstep: "\<not> (idx > 0 \<and> interval1 (cs ! (idx - 1)) > a)"
              using lo_end[of "idx - 1"] by (cases idx) auto
            have "addTagDFS ?node tg a b = IntervalNode A B t (insert_at idx (createIntervalNode a b (Some tg)) cs)"
              by (rule addTagDFS_inserted[OF mx(1,2) d(2) nt ne tm _ idxn nstep])
                 (use hi_start[of idx] in \<open>simp_all add: idx_def\<close>)
            then have res: "addTagDFS ?node tg a b = IntervalNode A B t (take idx cs @ new # drop idx cs)"
              by (simp add: insert_at_def createIntervalNode_def new_def)
            have c: "checkTagDFS new tg a b" by (rule checkTagDFS_self) (simp_all add: new_def)
            have aft: "\<forall>y\<in>set (drop idx cs). a < interval0 y"
            proof
              fix y assume "y \<in> set (drop idx cs)"
              then obtain i where i: "i < length cs - idx" "cs ! (idx + i) = y"
                by (auto simp: in_set_conv_nth)
              have "b \<le> interval0 (cs ! (idx + i))" using hi_start[of "idx + i"] i(1) by simp
              then show "a < interval0 y" using i(2) d(2) by simp
            qed
            have "checkTagDFS (IntervalNode A B t (take idx cs @ new # drop idx cs)) tg a b"
              by (rule fin) (use lo_set aft hi_set[of idx] c in \<open>simp_all add: new_def\<close>)
            then show ?thesis unfolding res .
          next
            case False
            then obtain k where k: "k < length cs" "\<not> (interval1 (cs ! k) \<le> a \<or> b \<le> interval0 (cs ! k))"
              by blast
            have "cs ! k \<in> set cs" using k(1) by simp
            then have kc: "interval0 (cs ! k) \<le> a" "b \<le> interval1 (cs ! k)"
              and ih: "checkTagDFS (addTagDFS (cs ! k) tg a b) tg a b"
              using f3' k(2) by blast+
            define c' where "c' = addTagDFS (cs ! k) tg a b"
            have keep: "interval0 c' = interval0 (cs ! k)" "interval1 c' = interval1 (cs ! k)"
              by (simp_all add: c'_def addTagDFS_interval0 addTagDFS_interval1)
            have istep: "(if idx > 0 \<and> interval1 (cs ! (idx - 1)) > a then idx - 1 else idx) = k"
            proof (cases "interval0 (cs ! k) < a")
              case True
              have 1: "k < idx"
              proof (rule ccontr)
                assume "\<not> k < idx"
                then have "a \<le> interval0 (cs ! k)" using hi[of k] k(1) by simp
                then show False using True by simp
              qed
              have 2: "idx \<le> Suc k"
              proof (rule ccontr)
                assume "\<not> idx \<le> Suc k"
                then have lt: "Suc k < idx" by simp
                then have sl: "Suc k < length cs" using idxn by simp
                have "interval0 (cs ! Suc k) < a" using lo[OF lt] .
                moreover have "interval1 (cs ! k) \<le> interval0 (cs ! Suc k)"
                  using sorted_wrt_nth_less[OF s, of k "Suc k"] sl by simp
                ultimately show False using kc(2) d(2) by linarith
              qed
              have "idx = Suc k" using 1 2 by simp
              moreover have "a < interval1 (cs ! k)" using kc(2) d(2) by linarith
              ultimately show ?thesis by simp
            next
              case False
              then have eq: "interval0 (cs ! k) = a" using kc(1) by simp
              have 1: "idx \<le> k"
              proof (rule ccontr)
                assume "\<not> idx \<le> k"
                then have "interval0 (cs ! k) < a" using lo[of k] by simp
                then show False using eq by simp
              qed
              have 2: "k \<le> idx"
              proof (rule ccontr)
                assume "\<not> k \<le> idx"
                then have lt: "idx < k" by simp
                then have "a \<le> interval0 (cs ! idx)" using hi[of idx] k(1) by simp
                moreover have "interval0 (cs ! idx) < interval0 (cs ! k)"
                  using sorted_wrt_nth_less[OF st, of idx k] lt k(1) by simp
                ultimately show False using eq by simp
              qed
              have ik: "idx = k" using 1 2 by simp
              have "0 < k \<Longrightarrow> interval1 (cs ! (k - 1)) \<le> a"
                using sorted_wrt_nth_less[OF s, of "k - 1" k] k(1) eq by simp
              then show ?thesis using ik by auto
            qed
            have res: "addTagDFS ?node tg a b = IntervalNode A B t (cs[k := c'])"
              unfolding c'_def
              by (rule addTagDFS_descend[OF mx(1,2) d(2) nt ne tm _ istep k(1) kc]) (simp add: idx_def)
            have shape: "cs[k := c'] = take k cs @ c' # drop (Suc k) cs"
              using k(1) by (simp add: upd_conv_take_nth_drop)
            have aft: "\<forall>y\<in>set (drop (Suc k) cs). a \<le> interval0 y"
              using after_end[of k "Suc k"] kc(2) d(2) by fastforce
            have "checkTagDFS (IntervalNode A B t (take k cs @ c' # drop (Suc k) cs)) tg a b"
              by (rule fin)
                 (use before_strict[OF k(1)] after_strict[of k "Suc k"] aft keep kc ih in \<open>simp_all add: c'_def\<close>)
            then show ?thesis unfolding res shape .
          qed
        qed
      qed
    qed
  qed
qed

lemma addTagDFS_admits:
  "admits tg node a b \<Longrightarrow> interval0 node \<le> a \<Longrightarrow> a < b \<Longrightarrow> b \<le> interval1 node
   \<Longrightarrow> checkTagDFS (addTagDFS node tg a b) tg a b"
proof (induction node)
  case (IntervalNode A B t cs)
  show ?case
  proof (cases "t = Some tg")
    case True
    then show ?thesis using IntervalNode.prems by (intro addTagDFS_same_tag) simp_all
  next
    case False
    then have s: "sorted_wrt (\<lambda>c d. interval1 c \<le> interval0 d) cs"
      and ne: "\<forall>c\<in>set cs. interval0 c < interval1 c"
      and ad: "(\<exists>c\<in>set cs. tag c = Some tg \<and> interval0 c < a \<and> a \<le> interval1 c)
          \<or> (\<exists>c\<in>set cs. tag c = Some tg \<and> a \<le> interval0 c \<and> interval0 c \<le> b \<and> b \<le> interval1 c
                \<and> (\<forall>d\<in>set cs. interval0 d < a \<or> interval0 c \<le> interval0 d))
          \<or> (\<forall>c\<in>set cs. interval1 c \<le> a \<or> b \<le> interval0 c
                \<or> (interval0 c \<le> a \<and> b \<le> interval1 c \<and> admits tg c a b))"
      using IntervalNode.prems(1) by (simp_all add: list_all_iff list_ex_iff)
    have f: "(\<exists>c\<in>set cs. tag c = Some tg \<and> interval0 c < a \<and> a \<le> interval1 c)
          \<or> (\<exists>c\<in>set cs. tag c = Some tg \<and> a \<le> interval0 c \<and> interval0 c \<le> b \<and> b \<le> interval1 c
                \<and> (\<forall>d\<in>set cs. interval0 d < a \<or> interval0 c \<le> interval0 d))
          \<or> (\<forall>c\<in>set cs. interval1 c \<le> a \<or> b \<le> interval0 c
                \<or> (interval0 c \<le> a \<and> b \<le> interval1 c \<and> checkTagDFS (addTagDFS c tg a b) tg a b))"
      using ad IntervalNode.IH IntervalNode.prems(3) by blast
    show ?thesis
      by (rule addTagDFS_level[OF _ IntervalNode.prems(3) _ s ne f]) (use IntervalNode.prems in simp_all)
  qed
qed

text \<open>
  Claim C1, as stated, fails in ways that follow from the design of \<open>hasTag\<close>, which
  answers true only when one node that carries the tag contains the whole query: an
  insertion that crosses the boundary of an existing child is split over several nodes,
  an insertion that sticks out of the domain is clipped to it, and an insertion that
  covers an existing child is split around it.
\<close>

theorem addTag_hasTag_counterexample:
  "\<not> hasTag (addTag (addTag (createTaggedIntervalTree 0 20) ''x'' 0 10) ''y'' 5 15) ''y'' 5 15
   \<and> \<not> hasTag (addTag (createTaggedIntervalTree 0 20) ''x'' (- 5) 5) ''x'' (- 5) 5
   \<and> \<not> hasTag (addTag (addTag (createTaggedIntervalTree 0 20) ''x'' 5 10) ''y'' 0 15) ''y'' 0 15"
  by code_simp

text \<open>
  The property also needs the invariants of the data model at the nodes that contain the
  interval; the operations can break them (claims C2 and C4).  After
  \<open>createTree(0,4); addTag(a,0,3); addTag(b,0,2); removeTag(a,1,2); removeTag(b,0,1)\<close> the
  children of the root are out of order, \<open>addTag(b,0,1)\<close> is absorbed by \<open>b[1,2)\<close>, and
  \<open>hasTag(b,0,1)\<close> is false, although \<open>[0,1)\<close> crosses no node.  After
  \<open>createTree(0,4); addTag(a,0,2); addTag(b,0,3); removeTag(a,0,1); removeTag(b,1,2)\<close> the
  node \<open>a[1,2)\<close> has the empty child \<open>b[1,1)\<close>, which absorbs \<open>addTag(b,1,2)\<close>.
\<close>

lemma addTag_hasTag_needs_invariants:
  "removeTag 4 (addTag (addTag (createTaggedIntervalTree 0 4) ''a'' 0 3) ''b'' 0 2) ''a'' 1 2
     = Some (True, \<lparr>root = IntervalNode 0 4 None
                 [IntervalNode 0 2 (Some ''b'') [], IntervalNode 0 1 (Some ''a'') [],
                  IntervalNode 2 3 (Some ''a'') []]\<rparr>)
   \<and> removeTag 4 \<lparr>root = IntervalNode 0 4 None
                 [IntervalNode 0 2 (Some ''b'') [], IntervalNode 0 1 (Some ''a'') [],
                  IntervalNode 2 3 (Some ''a'') []]\<rparr> ''b'' 0 1
     = Some (True, \<lparr>root = IntervalNode 0 4 None
                 [IntervalNode 1 2 (Some ''b'') [], IntervalNode 0 1 (Some ''a'') [],
                  IntervalNode 2 3 (Some ''a'') []]\<rparr>)
   \<and> \<not> hasTag (addTag \<lparr>root = IntervalNode 0 4 None
                 [IntervalNode 1 2 (Some ''b'') [], IntervalNode 0 1 (Some ''a'') [],
                  IntervalNode 2 3 (Some ''a'') []]\<rparr> ''b'' 0 1) ''b'' 0 1
   \<and> removeTag 4 (addTag (addTag (createTaggedIntervalTree 0 4) ''a'' 0 2) ''b'' 0 3) ''a'' 0 1
     = Some (True, \<lparr>root = IntervalNode 0 4 None
                 [IntervalNode 1 2 (Some ''a'') [IntervalNode 0 2 (Some ''b'') []],
                  IntervalNode 2 3 (Some ''b'') []]\<rparr>)
   \<and> removeTag 4 \<lparr>root = IntervalNode 0 4 None
                 [IntervalNode 1 2 (Some ''a'') [IntervalNode 0 2 (Some ''b'') []],
                  IntervalNode 2 3 (Some ''b'') []]\<rparr> ''b'' 1 2
     = Some (True, \<lparr>root = IntervalNode 0 4 None
                 [IntervalNode 1 2 (Some ''a'') [IntervalNode 1 1 (Some ''b'') []],
                  IntervalNode 2 3 (Some ''b'') []]\<rparr>)
   \<and> \<not> hasTag (addTag \<lparr>root = IntervalNode 0 4 None
                 [IntervalNode 1 2 (Some ''a'') [IntervalNode 1 1 (Some ''b'') []],
                  IntervalNode 2 3 (Some ''b'') []]\<rparr> ''b'' 1 2) ''b'' 1 2"
  by code_simp

text \<open>
  Insertions that the amended claim covers: nested in a child with another tag, across
  the end of a child with the same tag, across the start of a child with the same tag,
  and across a grandchild inside a child with the same tag.
\<close>

lemma admits_examples:
  "admits ''y'' (root (addTag (createTaggedIntervalTree 0 20) ''x'' 0 10)) 2 5
   \<and> admits ''x'' (root (addTag (createTaggedIntervalTree 0 20) ''x'' 0 10)) 5 15
   \<and> admits ''x'' (root (addTag (createTaggedIntervalTree 0 20) ''x'' 5 10)) 2 7
   \<and> admits ''x'' (root (addTag (addTag (createTaggedIntervalTree 0 20) ''x'' 0 10) ''y'' 2 5)) 1 3"
  by code_simp

text \<open>
  Claim C1, amended.  For every tree and every \<open>(tag, a, b)\<close> with \<open>a < b\<close> inside the
  domain of the root such that the root admits \<open>[a, b)\<close> for the tag: after
  \<open>addTag tag a b\<close> the query \<open>hasTag tag a b\<close> is true.  This covers the insertion into a
  gap between the children, the insertion nested inside existing nodes at any depth, and
  the insertion that overlaps a node carrying the same tag and is merged into it; the
  invariants of the data model are asked only of the nodes that contain \<open>[a, b)\<close> and do
  not carry the tag.
\<close>

theorem addTag_then_hasTag:
  assumes "interval0 (root tree) \<le> a" "a < b" "b \<le> interval1 (root tree)"
    and "admits tg (root tree) a b"
  shows "hasTag (addTag tree tg a b) tg a b"
  using addTagDFS_admits[OF assms(4,1,2,3)] assms(2) by (simp add: hasTag_def addTag_def)

theorem addTag_then_hasTag_witness:
  "hasTag (addTag \<lparr>root = IntervalNode 0 20 None
      [IntervalNode 0 10 (Some ''x'') [IntervalNode 6 8 (Some ''z'') []], IntervalNode 12 20 (Some ''x'') []]\<rparr>
      ''y'' 2 5) ''y'' 2 5"
  using addTag_then_hasTag[of "\<lparr>root = IntervalNode 0 20 None
      [IntervalNode 0 10 (Some ''x'') [IntervalNode 6 8 (Some ''z'') []], IntervalNode 12 20 (Some ''x'') []]\<rparr>" 2 5 "''y''"]
  by simp

section \<open>Termination of removal\<close>

text \<open>More fuel and a callback that returns more give the same result.\<close>

lemma rec_leD: "rec_le r1 r2 \<Longrightarrow> r1 c s e = Some y \<Longrightarrow> r2 c s e = Some y"
  unfolding rec_le_def by blast

lemma inside_loop_mono:
  "rec_le r1 r2 \<Longrightarrow> inside_loop r1 effS effE cs st = Some y \<Longrightarrow> inside_loop r2 effS effE cs st = Some y"
proof (induction r1 effS effE cs st rule: inside_loop.induct)
  case (1 rec effS effE st)
  then show ?case by simp
next
  case (2 rec effS effE child rest seen beforeNodes insideNodes afterNodes rehook)
  show ?case
  proof (cases "interval1 child \<le> effS")
    case True
    then show ?thesis using 2 by simp
  next
    case a: False
    show ?thesis
    proof (cases "interval0 child \<ge> effE")
      case True
      then show ?thesis using 2 a by simp
    next
      case b: False
      then obtain r c' where rc: "rec child effS effE = Some (r, c')"
        using "2.prems" a by (auto split: option.splits)
      then have rc2: "r2 child effS effE = Some (r, c')" using "2.prems"(1) rec_leD by blast
      show ?thesis using 2 a b rc rc2 by (auto split: if_splits)
    qed
  qed
qed

lemma entire_loop_mono:
  "rec_le r1 r2 \<Longrightarrow> entire_loop r1 effS effE cs rehook = Some y \<Longrightarrow> entire_loop r2 effS effE cs rehook = Some y"
proof (induction cs arbitrary: rehook)
  case Nil
  then show ?case by simp
next
  case (Cons child rest)
  show ?case
  proof (cases "interval0 child < effE \<and> interval1 child > effS")
    case False
    then show ?thesis using Cons by auto
  next
    case True
    then obtain r c' where rc: "r1 child effS effE = Some (r, c')"
      using Cons.prems by (auto split: option.splits)
    then have rc2: "r2 child effS effE = Some (r, c')" using Cons.prems(1) rec_leD by blast
    show ?thesis using Cons True rc rc2 by (auto split: if_splits)
  qed
qed

lemma left_loop_mono:
  "rec_le r1 r2 \<Longrightarrow> k \<le> k' \<Longrightarrow> left_loop k r1 effS effE cs i tr = Some y
   \<Longrightarrow> left_loop k' r2 effS effE cs i tr = Some y"
proof (induction k arbitrary: k' cs i tr)
  case 0
  then show ?case by (cases k') (auto split: if_splits)
next
  case (Suc k)
  then obtain j where k': "k' = Suc j" "k \<le> j" by (cases k') auto
  show ?case
  proof (cases "i < length cs")
    case False
    then show ?thesis using Suc.prems k' by simp
  next
    case il: True
    show ?thesis
    proof (cases "interval1 (cs ! i) \<le> effE")
      case True
      then show ?thesis using Suc.prems(3) il k' Suc.IH[OF Suc.prems(1) k'(2)] by (simp add: Let_def)
    next
      case a: False
      show ?thesis
      proof (cases "interval0 (cs ! i) < effE")
        case False
        then show ?thesis using Suc.prems(3) il a k' Suc.IH[OF Suc.prems(1) k'(2)] by (simp add: Let_def)
      next
        case b: True
        then obtain r c' where rc: "r1 (cs ! i) effS effE = Some (r, c')"
          using Suc.prems(3) il a by (auto simp: Let_def split: option.splits)
        then have rc2: "r2 (cs ! i) effS effE = Some (r, c')" using Suc.prems(1) rec_leD by blast
        show ?thesis
          using Suc.prems(3) il a b rc rc2 k' Suc.IH[OF Suc.prems(1) k'(2)]
          by (auto simp: Let_def split: if_splits)
      qed
    qed
  qed
qed

lemma right_loop_mono:
  "rec_le r1 r2 \<Longrightarrow> k \<le> k' \<Longrightarrow> right_loop k r1 effS cs i tr = Some y
   \<Longrightarrow> right_loop k' r2 effS cs i tr = Some y"
proof (induction k arbitrary: k' cs i tr)
  case 0
  then show ?case by (cases k') (auto split: if_splits)
next
  case (Suc k)
  then obtain j where k': "k' = Suc j" "k \<le> j" by (cases k') auto
  show ?case
  proof (cases "i < length cs")
    case False
    then show ?thesis using Suc.prems k' by simp
  next
    case il: True
    show ?thesis
    proof (cases "interval0 (cs ! i) \<ge> effS")
      case True
      then show ?thesis using Suc.prems(3) il k' Suc.IH[OF Suc.prems(1) k'(2)] by (simp add: Let_def)
    next
      case a: False
      show ?thesis
      proof (cases "interval1 (cs ! i) > effS")
        case False
        then show ?thesis using Suc.prems(3) il a k' Suc.IH[OF Suc.prems(1) k'(2)] by (simp add: Let_def)
      next
        case b: True
        then obtain r c' where rc: "r1 (cs ! i) effS (interval1 (cs ! i)) = Some (r, c')"
          using Suc.prems(3) il a by (auto simp: Let_def split: option.splits)
        then have rc2: "r2 (cs ! i) effS (interval1 (cs ! i)) = Some (r, c')"
          using Suc.prems(1) rec_leD by blast
        show ?thesis
          using Suc.prems(3) il a b rc rc2 k' Suc.IH[OF Suc.prems(1) k'(2)]
          by (auto simp: Let_def split: if_splits)
      qed
    qed
  qed
qed

lemma children_set_children [simp]: "children (set_children cs n) = cs"
  by (simp add: set_children_def)

lemma children_loop_step:
  "children_loop (Suc k) rec start e effS effE node i rem =
     (if i < length (children node) then
        (if effE \<le> interval0 (children node ! i) \<or> effS \<ge> interval1 (children node ! i)
         then children_loop k rec start e effS effE node (i + 1) rem
         else
           (case rec (children node ! i) start e of
              None \<Rightarrow> None
            | Some (r, c') \<Rightarrow>
                if removed r then
                  (if remainingInterval0 r < remainingInterval1 r then
                     (case rec (node_after node i r c') (remainingInterval0 r) (remainingInterval1 r) of
                        None \<Rightarrow> None
                      | Some (rr, node3) \<Rightarrow>
                          children_loop k rec start e effS effE node3 (index_after effS node i r c') True)
                   else children_loop k rec start e effS effE (node_after node i r c')
                          (index_after effS node i r c') True)
                else children_loop k rec start e effS effE
                       (set_children ((children node)[i := c']) node) (i + 1) rem))
      else Some (node, rem))"
  by (simp add: Let_def node_after_def index_after_def split: option.splits prod.splits)

lemma children_loop_zero:
  "children_loop 0 rec start e effS effE node i rem =
     (if i < length (children node) then None else Some (node, rem))"
  by simp

lemma children_loop_mono:
  "rec_le r1 r2 \<Longrightarrow> k \<le> k' \<Longrightarrow> children_loop k r1 start e effS effE node i rem = Some y
   \<Longrightarrow> children_loop k' r2 start e effS effE node i rem = Some y"
proof (induction k arbitrary: k' node i rem)
  case 0
  then show ?case by (cases k') (auto simp del: children_loop.simps simp: children_loop_zero children_loop_step split: if_splits)
next
  case (Suc k)
  then obtain j where k': "k' = Suc j" "k \<le> j" by (cases k') auto
  note IH = Suc.IH[OF Suc.prems(1) k'(2)]
  note run = Suc.prems(3)[unfolded children_loop_step]
  show ?case
  proof (cases "i < length (children node)")
    case False
    then show ?thesis using run unfolding k' children_loop_step by simp
  next
    case il: True
    show ?thesis
    proof (cases "effE \<le> interval0 (children node ! i) \<or> effS \<ge> interval1 (children node ! i)")
      case True
      then show ?thesis using run il IH unfolding k' children_loop_step by simp
    next
      case ns: False
      then obtain r c' where rc: "r1 (children node ! i) start e = Some (r, c')"
        using run il by (auto split: option.splits)
      then have rc2: "r2 (children node ! i) start e = Some (r, c')"
        using Suc.prems(1) rec_leD by blast
      show ?thesis
      proof (cases "removed r")
        case False
        then show ?thesis using run il ns rc rc2 IH unfolding k' children_loop_step by simp
      next
        case rm: True
        show ?thesis
        proof (cases "remainingInterval0 r < remainingInterval1 r")
          case False
          then show ?thesis using run il ns rc rc2 rm IH unfolding k' children_loop_step by simp
        next
          case True
          then obtain rr node3 where
            rn: "r1 (node_after node i r c') (remainingInterval0 r) (remainingInterval1 r) = Some (rr, node3)"
            using run il ns rc rm by (auto split: option.splits)
          then have rn2: "r2 (node_after node i r c') (remainingInterval0 r) (remainingInterval1 r) = Some (rr, node3)"
            using Suc.prems(1) rec_leD by blast
          show ?thesis using run il ns rc rc2 rm True rn rn2 IH unfolding k' children_loop_step by simp
        qed
      qed
    qed
  qed
qed

lemma processChildren_mono:
  assumes "rec_le r1 r2" "k \<le> k'" "processChildren k r1 node start e effS effE = Some y"
  shows "processChildren k' r2 node start e effS effE = Some y"
proof -
  let ?i = "let i0 = findInsertionPoint (children node) effS
            in if i0 > 0 \<and> interval1 (children node ! (i0 - 1)) > effS then i0 - 1 else i0"
  obtain z where z: "children_loop k r1 start e effS effE node ?i False = Some z"
    using assms(3) by (auto simp: processChildren_def Let_def split: option.splits)
  have "children_loop k' r2 start e effS effE node ?i False = Some z"
    by (rule children_loop_mono[OF assms(1,2) z])
  then show ?thesis using assms(3) z by (simp add: processChildren_def Let_def)
qed

text \<open>The body of \<open>removeTagDFS\<close>, case by case.\<close>

lemma cases_no_overlap:
  "effS \<ge> effE \<Longrightarrow>
   removeTagCases k rec node tg s e effS effE =
     Some (\<lparr>removed = False, state = NO_OVERLAP, remainingInterval0 = s,
            remainingInterval1 = e, rehookNodeList = []\<rparr>, node)"
  by (simp add: removeTagCases_def Let_def)

lemma cases_inside:
  "effS < effE \<Longrightarrow> tag node = Some tg \<Longrightarrow> interval0 node < effS \<Longrightarrow> effE < interval1 node \<Longrightarrow>
   removeTagCases k rec node tg s e effS effE =
     (case inside_loop rec effS effE (children node) ([], [], [], [], []) of
        None \<Rightarrow> None
      | Some (seen, beforeNodes, insideNodes, afterNodes, rehook) \<Rightarrow>
          Some (\<lparr>removed = True, state = REMOVE_INTERVAL_INSIDE, remainingInterval0 = e,
                 remainingInterval1 = e,
                 rehookNodeList = rehook
                   @ [IntervalNode (interval0 node) effS (Some tg) beforeNodes]
                   @ insideNodes
                   @ [IntervalNode effE (interval1 node) (Some tg) afterNodes]\<rparr>,
                set_children seen node))"
  by (simp add: removeTagCases_def Let_def split: option.splits)

lemma cases_left:
  "effS < effE \<Longrightarrow> tag node = Some tg \<Longrightarrow> effS \<le> interval0 node \<Longrightarrow> effE < interval1 node \<Longrightarrow>
   removeTagCases k rec node tg s e effS effE =
     (case left_loop k rec effS effE (children node) 0 [] of
        None \<Rightarrow> None
      | Some (cs, toRemove) \<Rightarrow>
          Some (\<lparr>removed = True, state = REMOVE_INTERVAL_LEFT, remainingInterval0 = effE,
                 remainingInterval1 = e, rehookNodeList = []\<rparr>,
                set_children (foldr remove_at toRemove cs) (set_interval0 effE node)))"
  by (simp add: removeTagCases_def Let_def)

lemma cases_right:
  "effS < effE \<Longrightarrow> tag node = Some tg \<Longrightarrow> interval0 node < effS \<Longrightarrow> interval1 node \<le> effE \<Longrightarrow>
   removeTagCases k rec node tg s e effS effE =
     (case right_loop k rec effS (children node) 0 [] of
        None \<Rightarrow> None
      | Some (cs, toRemove) \<Rightarrow>
          Some (\<lparr>removed = True, state = REMOVE_INTERVAL_RIGHT, remainingInterval0 = s,
                 remainingInterval1 = effS, rehookNodeList = []\<rparr>,
                set_children (foldr remove_at toRemove cs) (set_interval1 effS node)))"
  by (simp add: removeTagCases_def Let_def)

lemma cases_entire:
  "effS < effE \<Longrightarrow> tag node = Some tg \<Longrightarrow> effS \<le> interval0 node \<Longrightarrow> interval1 node \<le> effE \<Longrightarrow>
   removeTagCases k rec node tg s e effS effE =
     (case entire_loop rec effS effE (children node) [] of
        None \<Rightarrow> None
      | Some rehook \<Rightarrow>
          Some (\<lparr>removed = True, state = REMOVE_ENTIRE_NODE, remainingInterval0 = effE,
                 remainingInterval1 = e, rehookNodeList = rehook\<rparr>,
                set_children [] node))"
  by (simp add: removeTagCases_def Let_def)

lemma cases_children:
  "effS < effE \<Longrightarrow> tag node \<noteq> Some tg \<Longrightarrow>
   removeTagCases k rec node tg s e effS effE = processChildren k rec node s e effS effE"
  by (simp add: removeTagCases_def Let_def)

lemma body_cases:
  fixes effS effE :: int
  obtains (no_overlap) "effS \<ge> effE"
  | (inside) "effS < effE" "tag node = Some tg" "interval0 node < effS" "effE < interval1 node"
  | (left) "effS < effE" "tag node = Some tg" "effS \<le> interval0 node" "effE < interval1 node"
  | (right) "effS < effE" "tag node = Some tg" "interval0 node < effS" "interval1 node \<le> effE"
  | (entire) "effS < effE" "tag node = Some tg" "effS \<le> interval0 node" "interval1 node \<le> effE"
  | (children) "effS < effE" "tag node \<noteq> Some tg"
  by (cases "effS < effE"; cases "tag node = Some tg"; cases "interval0 node < effS";
      cases "effE < interval1 node") auto

lemma removeTagCases_mono:
  assumes le: "rec_le r1 r2" "k \<le> k'" and run: "removeTagCases k r1 node tg s e effS effE = Some y"
  shows "removeTagCases k' r2 node tg s e effS effE = Some y"
proof (cases rule: body_cases[where effS = effS and effE = effE and node = node and tg = tg])
  case no_overlap
  then show ?thesis using run by (simp add: cases_no_overlap)
next
  case inside
  note eq = cases_inside[OF inside]
  obtain z where z: "inside_loop r1 effS effE (children node) ([], [], [], [], []) = Some z"
    using run unfolding eq by (auto split: option.splits)
  have "inside_loop r2 effS effE (children node) ([], [], [], [], []) = Some z"
    by (rule inside_loop_mono[OF le(1) z])
  then show ?thesis using run z unfolding eq by simp
next
  case left
  note eq = cases_left[OF left]
  obtain z where z: "left_loop k r1 effS effE (children node) 0 [] = Some z"
    using run unfolding eq by (auto split: option.splits)
  have "left_loop k' r2 effS effE (children node) 0 [] = Some z"
    by (rule left_loop_mono[OF le z])
  then show ?thesis using run z unfolding eq by simp
next
  case right
  note eq = cases_right[OF right]
  obtain z where z: "right_loop k r1 effS (children node) 0 [] = Some z"
    using run unfolding eq by (auto split: option.splits)
  have "right_loop k' r2 effS (children node) 0 [] = Some z"
    by (rule right_loop_mono[OF le z])
  then show ?thesis using run z unfolding eq by simp
next
  case entire
  note eq = cases_entire[OF entire]
  obtain z where z: "entire_loop r1 effS effE (children node) [] = Some z"
    using run unfolding eq by (auto split: option.splits)
  have "entire_loop r2 effS effE (children node) [] = Some z"
    by (rule entire_loop_mono[OF le(1) z])
  then show ?thesis using run z unfolding eq by simp
next
  case children
  note eq = cases_children[OF children]
  show ?thesis using run processChildren_mono[OF le] unfolding eq by blast
qed

lemma removeTagBody_mono:
  assumes "rec_le r1 r2" "k \<le> k'" "removeTagBody k r1 node tg s e = Some y"
  shows "removeTagBody k' r2 node tg s e = Some y"
  using assms unfolding removeTagBody_def by (rule removeTagCases_mono)

lemma removeTagDFS_mono_Suc:
  "removeTagDFS n node tg s e = Some y \<Longrightarrow> removeTagDFS (Suc n) node tg s e = Some y"
proof (induction n arbitrary: node s e y)
  case 0
  then show ?case by simp
next
  case (Suc n)
  have le: "rec_le (\<lambda>child s e'. removeTagDFS n child tg s e') (\<lambda>child s e'. removeTagDFS (Suc n) child tg s e')"
    unfolding rec_le_def using Suc.IH by blast
  have "removeTagBody n (\<lambda>child s e'. removeTagDFS n child tg s e') node tg s e = Some y"
    using Suc.prems by simp
  then have b: "removeTagBody (Suc n) (\<lambda>child s e'. removeTagDFS (Suc n) child tg s e') node tg s e = Some y"
    using removeTagBody_mono[OF le, of n "Suc n"] by (simp del: removeTagDFS.simps)
  have step: "removeTagDFS (Suc (Suc n)) node tg s e
      = removeTagBody (Suc n) (\<lambda>child s e'. removeTagDFS (Suc n) child tg s e') node tg s e"
    by (rule removeTagDFS.simps(2))
  show ?case unfolding step by (rule b)
qed

lemma removeTagDFS_mono:
  "removeTagDFS n node tg s e = Some y \<Longrightarrow> n \<le> m \<Longrightarrow> removeTagDFS m node tg s e = Some y"
proof (induction m)
  case 0
  then show ?case by simp
next
  case (Suc m)
  show ?case
  proof (cases "n = Suc m")
    case True
    then show ?thesis using Suc.prems by simp
  next
    case False
    then have "n \<le> m" using Suc.prems by simp
    then have "removeTagDFS m node tg s e = Some y" using Suc by blast
    then show ?thesis by (rule removeTagDFS_mono_Suc)
  qed
qed

text \<open>The measure of lists and of the nodes the loops build.\<close>

lemma mu_alt: "mu tg n = wgt tg n + mus tg (children n)"
  by (cases n) (simp add: wgt_def)

declare mu.simps [simp del]

lemma wgt_pos: "0 < wgt tg n"
  by (simp add: wgt_def)

lemma mu_child: "c \<in> set (children n) \<Longrightarrow> mu tg c < mu tg n"
proof -
  assume "c \<in> set (children n)"
  then have "mu tg c \<le> mus tg (children n)"
    by (simp add: member_le_sum_list)
  then show ?thesis using wgt_pos[of tg n] by (simp add: mu_alt[of tg n])
qed

lemma mus_update: "i < length cs \<Longrightarrow> mus tg (cs[i := x]) + mu tg (cs ! i) = mus tg cs + mu tg x"
proof (induction cs arbitrary: i)
  case Nil
  then show ?case by simp
next
  case (Cons c cs)
  then show ?case by (cases i) auto
qed

lemma mus_remove_at: "i < length cs \<Longrightarrow> mus tg (remove_at i cs) + mu tg (cs ! i) = mus tg cs"
proof -
  assume i: "i < length cs"
  then have "cs = take i cs @ cs ! i # drop (Suc i) cs" by (simp add: id_take_nth_drop)
  then have "mus tg cs = mus tg (take i cs) + mu tg (cs ! i) + mus tg (drop (Suc i) cs)"
    by (metis (no_types, lifting) add.assoc list.simps(9) map_append sum_list.Cons sum_list.append)
  then show ?thesis using i by (simp add: remove_at_def)
qed

lemma mus_butlast: "mus tg (butlast cs) \<le> mus tg cs"
  by (induction cs) auto

lemma mus_remove_at_le: "mus tg (remove_at i cs) \<le> mus tg cs"
proof (cases "i < length cs")
  case True
  then show ?thesis using mus_remove_at[of i cs tg] by simp
next
  case False
  then show ?thesis by (simp add: remove_at_def mus_butlast)
qed

lemma mus_foldr_remove: "mus tg (foldr remove_at tr cs) \<le> mus tg cs"
proof (induction tr)
  case Nil
  then show ?case by simp
next
  case (Cons a tr)
  have "mus tg (remove_at a (foldr remove_at tr cs)) \<le> mus tg (foldr remove_at tr cs)"
    by (rule mus_remove_at_le)
  then show ?case using Cons by simp
qed

lemma mus_insert_at: "mus tg (insert_at i x cs) = mu tg x + mus tg cs"
proof -
  have "mus tg (take i cs) + mus tg (drop i cs) = mus tg cs"
    by (metis append_take_drop_id map_append sum_list.append)
  then show ?thesis by (simp add: insert_at_def)
qed

lemma mus_rehook: "mus tg (foldl rehook_insert cs rh) = mus tg cs + mus tg rh"
  by (induction rh arbitrary: cs) (simp_all add: rehook_insert_def mus_insert_at)

lemma wgt_set_children [simp]: "wgt tg (set_children cs n) = wgt tg n"
  by (simp add: wgt_def set_children_def)

lemma mu_set_children: "mu tg (set_children cs n) = wgt tg n + mus tg cs"
  by (simp add: mu_alt[of tg "set_children cs n"])

lemma mu_clip: "mu tg (clip_child p c) \<le> mu tg c"
  by (auto simp add: mu.simps mu_alt[of tg c] clip_child_def Let_def wgt_def
        set_interval0_def set_interval1_def)

lemma mus_clip: "mus tg (map (clip_child p) cs) \<le> mus tg cs"
  by (induction cs) (simp_all add: add_mono mu_clip)

lemma mus_update_le:
  "i < length cs \<Longrightarrow> mu tg x \<le> mu tg (cs ! i) \<Longrightarrow> mus tg (cs[i := x]) \<le> mus tg cs"
  using mus_update[of i cs tg x] by simp

lemma length_le_mus: "length cs \<le> mus tg cs"
proof (induction cs)
  case Nil
  then show ?case by simp
next
  case (Cons c cs)
  have "0 < mu tg c" using wgt_pos[of tg c] by (simp add: mu_alt[of tg c])
  then show ?case using Cons by simp
qed

text \<open>
  The postcondition holds of every call that returns: a call never increases the measure
  of its node, and a call that reports a removal decreases the measure of what the
  caller keeps (the node itself, or the rehook list that replaces it).
\<close>

lemma rec_postD: "rec_post tg rec \<Longrightarrow> rec c s e = Some (r, c') \<Longrightarrow> call_post tg c s e r c'"
  unfolding rec_post_def by blast

lemma inside_loop_post:
  "rec_post tg rec \<Longrightarrow>
   inside_loop rec effS effE cs (seen, b, ins, a, rh) = Some (seen', b', ins', a', rh') \<Longrightarrow>
   mus tg seen' \<le> mus tg seen + mus tg cs
   \<and> mus tg b' + mus tg ins' + mus tg a' + mus tg rh'
       \<le> mus tg b + mus tg ins + mus tg a + mus tg rh + mus tg cs"
proof (induction cs arbitrary: seen b ins a rh)
  case Nil
  then show ?case by simp
next
  case (Cons child rest)
  note run = Cons.prems(2)
  note IH = Cons.IH[OF Cons.prems(1)]
  show ?case
  proof (cases "interval1 child \<le> effS")
    case True
    then have "inside_loop rec effS effE rest (seen @ [child], b @ [child], ins, a, rh)
        = Some (seen', b', ins', a', rh')"
      using run by simp
    from IH[OF this] show ?thesis by simp
  next
    case n1: False
    show ?thesis
    proof (cases "interval0 child \<ge> effE")
      case True
      then have "inside_loop rec effS effE rest (seen @ [child], b, ins, a @ [child], rh)
          = Some (seen', b', ins', a', rh')"
        using run n1 by simp
      from IH[OF this] show ?thesis by simp
    next
      case n2: False
      obtain r c' where rc: "rec child effS effE = Some (r, c')"
        using run n1 n2 by (cases "rec child effS effE") auto
      have p: "call_post tg child effS effE r c'" by (rule rec_postD[OF Cons.prems(1) rc])
      show ?thesis
      proof (cases "removed r \<and> gone r")
        case True
        then have "inside_loop rec effS effE rest (seen @ [c'], b, ins, a, rh @ rehookNodeList r)
            = Some (seen', b', ins', a', rh')"
          using run n1 n2 rc by (simp add: gone_def)
        from IH[OF this] show ?thesis using p True by (simp add: call_post_def)
      next
        case False
        then have "inside_loop rec effS effE rest (seen @ [c'], b, ins @ [c'], a, rh)
            = Some (seen', b', ins', a', rh')"
          using run n1 n2 rc by (auto simp: gone_def)
        from IH[OF this] show ?thesis using p by (simp add: call_post_def)
      qed
    qed
  qed
qed

lemma entire_loop_post:
  "rec_post tg rec \<Longrightarrow> entire_loop rec effS effE cs rh = Some rh' \<Longrightarrow>
   mus tg rh' \<le> mus tg rh + mus tg cs"
proof (induction cs arbitrary: rh)
  case Nil
  then show ?case by simp
next
  case (Cons child rest)
  note run = Cons.prems(2)
  note IH = Cons.IH[OF Cons.prems(1)]
  show ?case
  proof (cases "interval0 child < effE \<and> interval1 child > effS")
    case False
    then have "entire_loop rec effS effE rest (rh @ [child]) = Some rh'"
      using run by auto
    from IH[OF this] show ?thesis by simp
  next
    case ov: True
    obtain r c' where rc: "rec child effS effE = Some (r, c')"
      using run ov by (cases "rec child effS effE") auto
    have p: "call_post tg child effS effE r c'" by (rule rec_postD[OF Cons.prems(1) rc])
    show ?thesis
    proof (cases "removed r")
      case True
      then have "entire_loop rec effS effE rest (rh @ rehookNodeList r) = Some rh'"
        using run ov rc by simp
      from IH[OF this] show ?thesis using p by (simp add: call_post_def)
    next
      case False
      then have "entire_loop rec effS effE rest (rh @ [c']) = Some rh'"
        using run ov rc by simp
      from IH[OF this] show ?thesis using p by (simp add: call_post_def)
    qed
  qed
qed

lemma left_loop_post:
  "rec_post tg rec \<Longrightarrow> left_loop k rec effS effE cs i tr = Some (cs', tr') \<Longrightarrow>
   mus tg cs' \<le> mus tg cs"
proof (induction k arbitrary: cs i tr)
  case 0
  then show ?case by (simp split: if_splits)
next
  case (Suc k)
  note run = Suc.prems(2)
  note IH = Suc.IH[OF Suc.prems(1)]
  show ?case
  proof (cases "i < length cs")
    case False
    then show ?thesis using run by simp
  next
    case il: True
    show ?thesis
    proof (cases "interval1 (cs ! i) \<le> effE")
      case True
      then have "left_loop k rec effS effE cs (i + 1) (tr @ [i]) = Some (cs', tr')"
        using run il by simp
      from IH[OF this] show ?thesis .
    next
      case n1: False
      show ?thesis
      proof (cases "interval0 (cs ! i) < effE")
        case False
        then have "left_loop k rec effS effE cs (i + 1) tr = Some (cs', tr')"
          using run il n1 by simp
        from IH[OF this] show ?thesis .
      next
        case True
        obtain r c' where rc: "rec (cs ! i) effS effE = Some (r, c')"
          using run il n1 True by (cases "rec (cs ! i) effS effE") auto
        have p: "call_post tg (cs ! i) effS effE r c'" by (rule rec_postD[OF Suc.prems(1) rc])
        have ne: "state r \<noteq> REMOVE_ENTIRE_NODE" using p n1 by (auto simp: call_post_def)
        have "left_loop k rec effS effE (cs[i := c']) (i + 1) tr = Some (cs', tr')"
          using run il n1 True rc ne by simp
        from IH[OF this] have "mus tg cs' \<le> mus tg (cs[i := c'])" .
        moreover have "mus tg (cs[i := c']) \<le> mus tg cs"
          using mus_update_le[OF il, of tg c'] p by (simp add: call_post_def)
        ultimately show ?thesis by simp
      qed
    qed
  qed
qed

lemma right_loop_post:
  "rec_post tg rec \<Longrightarrow> right_loop k rec effS cs i tr = Some (cs', tr') \<Longrightarrow>
   mus tg cs' \<le> mus tg cs"
proof (induction k arbitrary: cs i tr)
  case 0
  then show ?case by (simp split: if_splits)
next
  case (Suc k)
  note run = Suc.prems(2)
  note IH = Suc.IH[OF Suc.prems(1)]
  show ?case
  proof (cases "i < length cs")
    case False
    then show ?thesis using run by simp
  next
    case il: True
    show ?thesis
    proof (cases "interval0 (cs ! i) \<ge> effS")
      case True
      then have "right_loop k rec effS cs (i + 1) (tr @ [i]) = Some (cs', tr')"
        using run il by simp
      from IH[OF this] show ?thesis .
    next
      case n1: False
      show ?thesis
      proof (cases "interval1 (cs ! i) > effS")
        case False
        then have "right_loop k rec effS cs (i + 1) tr = Some (cs', tr')"
          using run il n1 by simp
        from IH[OF this] show ?thesis .
      next
        case True
        obtain r c' where rc: "rec (cs ! i) effS (interval1 (cs ! i)) = Some (r, c')"
          using run il n1 True by (cases "rec (cs ! i) effS (interval1 (cs ! i))") auto
        have p: "call_post tg (cs ! i) effS (interval1 (cs ! i)) r c'"
          by (rule rec_postD[OF Suc.prems(1) rc])
        have ne: "state r \<noteq> REMOVE_ENTIRE_NODE" using p n1 by (auto simp: call_post_def)
        have "right_loop k rec effS (cs[i := c']) (i + 1) tr = Some (cs', tr')"
          using run il n1 True rc ne by simp
        from IH[OF this] have "mus tg cs' \<le> mus tg (cs[i := c'])" .
        moreover have "mus tg (cs[i := c']) \<le> mus tg cs"
          using mus_update_le[OF il, of tg c'] p by (simp add: call_post_def)
        ultimately show ?thesis by simp
      qed
    qed
  qed
qed

lemma node_after_less:
  assumes il: "i < length (children node)"
    and p: "call_post tg (children node ! i) s e r c'" and rm: "removed r"
  shows "mu tg (node_after node i r c') < mu tg node"
proof (cases "gone r")
  case True
  let ?cs1 = "(children node)[i := c']"
  have l1: "i < length ?cs1" using il by simp
  have "mus tg (remove_at i ?cs1) + mu tg (?cs1 ! i) = mus tg ?cs1"
    by (rule mus_remove_at[OF l1])
  then have a: "mus tg (remove_at i ?cs1) + mu tg c' = mus tg ?cs1" using il by simp
  have b: "mus tg ?cs1 + mu tg (children node ! i) = mus tg (children node) + mu tg c'"
    by (rule mus_update[OF il])
  have c: "mus tg (rehookNodeList r) < mu tg (children node ! i)"
    using p rm True by (simp add: call_post_def)
  have "mus tg (foldl rehook_insert (remove_at i ?cs1) (rehookNodeList r)) < mus tg (children node)"
    using a b c by (simp add: mus_rehook)
  then show ?thesis using True
    by (simp add: node_after_def gone_def mu_set_children mu_alt[of tg node])
next
  case False
  have b: "mus tg ((children node)[i := c']) + mu tg (children node ! i) = mus tg (children node) + mu tg c'"
    by (rule mus_update[OF il])
  have c: "mu tg c' < mu tg (children node ! i)"
    using p rm False by (simp add: call_post_def)
  have "mus tg ((children node)[i := c']) < mus tg (children node)" using b c by simp
  then show ?thesis using False
    by (simp add: node_after_def gone_def mu_set_children mu_alt[of tg node])
qed

lemma children_loop_post:
  "rec_post tg rec \<Longrightarrow> children_loop k rec start e effS effE node i rem = Some (node', rem') \<Longrightarrow>
   mu tg node' \<le> mu tg node \<and> (rem' \<longrightarrow> rem \<or> mu tg node' < mu tg node)"
proof (induction k arbitrary: node i rem)
  case 0
  then show ?case by (simp split: if_splits)
next
  case (Suc k)
  note run = Suc.prems(2)[unfolded children_loop_step]
  note IH = Suc.IH[OF Suc.prems(1)]
  show ?case
  proof (cases "i < length (children node)")
    case False
    then show ?thesis using run by simp
  next
    case il: True
    let ?c = "children node ! i"
    show ?thesis
    proof (cases "effE \<le> interval0 ?c \<or> effS \<ge> interval1 ?c")
      case True
      then have "children_loop k rec start e effS effE node (i + 1) rem = Some (node', rem')"
        using run il by (simp del: children_loop.simps)
      from IH[OF this] show ?thesis .
    next
      case ov: False
      obtain r c' where rc: "rec ?c start e = Some (r, c')"
        using run il ov by (cases "rec ?c start e") (auto simp del: children_loop.simps)
      have p: "call_post tg ?c start e r c'" by (rule rec_postD[OF Suc.prems(1) rc])
      show ?thesis
      proof (cases "removed r")
        case False
        let ?n = "set_children ((children node)[i := c']) node"
        have "children_loop k rec start e effS effE ?n (i + 1) rem = Some (node', rem')"
          using run il ov rc False by (simp del: children_loop.simps)
        from IH[OF this] have "mu tg node' \<le> mu tg ?n \<and> (rem' \<longrightarrow> rem \<or> mu tg node' < mu tg ?n)" .
        moreover have "mu tg ?n \<le> mu tg node"
          using mus_update_le[OF il, of tg c'] p by (simp add: mu_set_children mu_alt[of tg node] call_post_def)
        ultimately show ?thesis by auto
      next
        case rm: True
        let ?n2 = "node_after node i r c'"
        have lt: "mu tg ?n2 < mu tg node" by (rule node_after_less[OF il p rm])
        show ?thesis
        proof (cases "remainingInterval0 r < remainingInterval1 r")
          case False
          then have "children_loop k rec start e effS effE ?n2 (index_after effS node i r c') True
              = Some (node', rem')"
            using run il ov rc rm by (simp del: children_loop.simps)
          from IH[OF this] show ?thesis using lt by auto
        next
          case True
          obtain rr n3 where r3: "rec ?n2 (remainingInterval0 r) (remainingInterval1 r) = Some (rr, n3)"
            using run il ov rc rm True
            by (cases "rec ?n2 (remainingInterval0 r) (remainingInterval1 r)") (auto simp del: children_loop.simps)
          have le3: "mu tg n3 \<le> mu tg ?n2" using rec_postD[OF Suc.prems(1) r3] by (simp add: call_post_def)
          have "children_loop k rec start e effS effE n3 (index_after effS node i r c') True
              = Some (node', rem')"
            using run il ov rc rm True r3 by (simp del: children_loop.simps)
          from IH[OF this] show ?thesis using lt le3 by auto
        qed
      qed
    qed
  qed
qed

lemma processChildren_post:
  assumes rp: "rec_post tg rec" and run: "processChildren k rec node start e effS effE = Some (r, c')"
  shows "call_post tg node start e r c'"
proof -
  let ?i = "let i0 = findInsertionPoint (children node) effS
            in if i0 > 0 \<and> interval1 (children node ! (i0 - 1)) > effS then i0 - 1 else i0"
  obtain n' rem' where z: "children_loop k rec start e effS effE node ?i False = Some (n', rem')"
    using run by (auto simp: processChildren_def Let_def split: option.splits)
  have cl: "mu tg n' \<le> mu tg node \<and> (rem' \<longrightarrow> False \<or> mu tg n' < mu tg node)"
    by (rule children_loop_post[OF rp z])
  have r: "removed r = rem'" "state r = PROCESSED_CHILDREN" "rehookNodeList r = []"
    and c': "c' = set_children (map (clip_child n') (children n')) n'"
    using run z by (auto simp: processChildren_def Let_def)
  have "mu tg c' \<le> mu tg n'"
    unfolding c' using mus_clip[of tg n' "children n'"] by (simp add: mu_set_children mu_alt[of tg n'])
  then show ?thesis using cl r by (auto simp: call_post_def gone_def)
qed

lemma removeTagCases_post:
  assumes rp: "rec_post tg rec"
    and S: "effS = max start (interval0 node)" and E: "effE = min e (interval1 node)"
    and run: "removeTagCases k rec node tg start e effS effE = Some (r, c')"
  shows "call_post tg node start e r c'"
proof (cases rule: body_cases[where effS = effS and effE = effE and node = node and tg = tg])
  case no_overlap
  then show ?thesis using run by (auto simp: cases_no_overlap call_post_def gone_def)
next
  case inside
  note eq = cases_inside[OF inside]
  obtain seen b ins a rh where
    z: "inside_loop rec effS effE (children node) ([], [], [], [], []) = Some (seen, b, ins, a, rh)"
    using run unfolding eq by (auto split: option.splits)
  have il: "mus tg seen \<le> mus tg [] + mus tg (children node)
      \<and> mus tg b + mus tg ins + mus tg a + mus tg rh
          \<le> mus tg [] + mus tg [] + mus tg [] + mus tg [] + mus tg (children node)"
    by (rule inside_loop_post[OF rp z])
  have r: "removed r" "state r = REMOVE_INTERVAL_INSIDE"
    "rehookNodeList r = rh @ [IntervalNode (interval0 node) effS (Some tg) b] @ ins
        @ [IntervalNode effE (interval1 node) (Some tg) a]"
    and c': "c' = set_children seen node"
    using run z unfolding eq by auto
  have ar: "2 + 2 * nat (effS - interval0 node) + 2 * nat (interval1 node - effE)
      \<le> 2 * nat (interval1 node - interval0 node)"
    using inside by linarith
  have w: "wgt tg node = 1 + 2 * nat (interval1 node - interval0 node)"
    using inside by (simp add: wgt_def)
  have m1: "mus tg (rehookNodeList r) < mu tg node"
    unfolding r(3) mu_alt[of tg node] w using il ar by (simp add: mu.simps)
  have m2: "mu tg c' \<le> mu tg node"
    unfolding c' using il by (simp add: mu_set_children mu_alt[of tg node])
  show ?thesis using m1 m2 r by (simp add: call_post_def gone_def)
next
  case left
  note eq = cases_left[OF left]
  obtain cs tr where z: "left_loop k rec effS effE (children node) 0 [] = Some (cs, tr)"
    using run unfolding eq by (auto split: option.splits)
  have ll: "mus tg cs \<le> mus tg (children node)" by (rule left_loop_post[OF rp z])
  have r: "removed r" "state r = REMOVE_INTERVAL_LEFT" "rehookNodeList r = []"
    and c': "c' = set_children (foldr remove_at tr cs) (set_interval0 effE node)"
    using run z unfolding eq by auto
  have lt: "interval0 node < effE" using left S by linarith
  have w: "wgt tg (set_interval0 effE node) < wgt tg node"
    using left lt by (simp add: wgt_def set_interval0_def)
  have "mus tg (foldr remove_at tr cs) \<le> mus tg (children node)"
    using mus_foldr_remove[of tg tr cs] ll by simp
  then have "mu tg c' < mu tg node"
    unfolding c' using w by (simp add: mu_set_children mu_alt[of tg node])
  then show ?thesis using r by (simp add: call_post_def gone_def)
next
  case right
  note eq = cases_right[OF right]
  obtain cs tr where z: "right_loop k rec effS (children node) 0 [] = Some (cs, tr)"
    using run unfolding eq by (auto split: option.splits)
  have ll: "mus tg cs \<le> mus tg (children node)" by (rule right_loop_post[OF rp z])
  have r: "removed r" "state r = REMOVE_INTERVAL_RIGHT" "rehookNodeList r = []"
    and c': "c' = set_children (foldr remove_at tr cs) (set_interval1 effS node)"
    using run z unfolding eq by auto
  have lt: "effS < interval1 node" using right E by linarith
  have w: "wgt tg (set_interval1 effS node) < wgt tg node"
    using right lt by (simp add: wgt_def set_interval1_def)
  have "mus tg (foldr remove_at tr cs) \<le> mus tg (children node)"
    using mus_foldr_remove[of tg tr cs] ll by simp
  then have "mu tg c' < mu tg node"
    unfolding c' using w by (simp add: mu_set_children mu_alt[of tg node])
  then show ?thesis using r by (simp add: call_post_def gone_def)
next
  case entire
  note eq = cases_entire[OF entire]
  obtain rh where z: "entire_loop rec effS effE (children node) [] = Some rh"
    using run unfolding eq by (auto split: option.splits)
  have el: "mus tg rh \<le> mus tg [] + mus tg (children node)" by (rule entire_loop_post[OF rp z])
  have r: "removed r" "state r = REMOVE_ENTIRE_NODE" "rehookNodeList r = rh"
    and c': "c' = set_children [] node"
    using run z unfolding eq by auto
  have b: "start \<le> interval0 node \<and> interval1 node \<le> e" using entire S E by linarith
  have m1: "mus tg (rehookNodeList r) < mu tg node"
    unfolding r(3) using el wgt_pos[of tg node] by (simp add: mu_alt[of tg node])
  have m2: "mu tg c' \<le> mu tg node"
    unfolding c' by (simp add: mu_set_children mu_alt[of tg node])
  show ?thesis using m1 m2 r b by (simp add: call_post_def gone_def)
next
  case children
  show ?thesis using run processChildren_post[OF rp] unfolding cases_children[OF children] by blast
qed

lemma removeTagDFS_post:
  "removeTagDFS n node tg s e = Some (r, c') \<Longrightarrow> call_post tg node s e r c'"
proof (induction n arbitrary: node s e r c')
  case 0
  then show ?case by simp
next
  case (Suc n)
  have rp: "rec_post tg (\<lambda>child s e'. removeTagDFS n child tg s e')"
    unfolding rec_post_def using Suc.IH by blast
  have "removeTagCases n (\<lambda>child s e'. removeTagDFS n child tg s e') node tg s e
          (max s (interval0 node)) (min e (interval1 node)) = Some (r, c')"
    using Suc.prems by (simp add: removeTagBody_def)
  from removeTagCases_post[OF rp refl refl this] show ?case .
qed

text \<open>
  Every loop returns when the callback returns on all nodes of smaller measure and the
  fuel covers the iterations.  The loop of the untagged branch runs at most
  \<open>(mu node)\<^sup>2 + length (children node) - i\<close> iterations: an iteration that reports no
  removal advances the index, and one that reports a removal decreases the measure.
\<close>

lemma totD: "tot tg M rec \<Longrightarrow> mu tg c < M \<Longrightarrow> \<exists>r c'. rec c s e = Some (r, c')"
  unfolding tot_def by (metis surj_pair)

lemma mu_nth_less: "i < length cs \<Longrightarrow> mus tg cs < M \<Longrightarrow> mu tg (cs ! i) < M"
proof -
  assume "i < length cs" and M: "mus tg cs < M"
  then have "mu tg (cs ! i) \<le> mus tg cs" by (simp add: member_le_sum_list)
  then show ?thesis using M by simp
qed

lemma inside_loop_total:
  "tot tg M rec \<Longrightarrow> mus tg cs < M \<Longrightarrow> \<exists>y. inside_loop rec effS effE cs (seen, b, ins, a, rh) = Some y"
proof (induction cs arbitrary: seen b ins a rh)
  case Nil
  then show ?case by simp
next
  case (Cons child rest)
  have M: "mus tg rest < M" "mu tg child < M" using Cons.prems(2) by simp_all
  note IH = Cons.IH[OF Cons.prems(1) M(1)]
  obtain r c' where rc: "rec child effS effE = Some (r, c')"
    using totD[OF Cons.prems(1) M(2)] by blast
  show ?case
  proof (cases "interval1 child \<le> effS")
    case True
    then show ?thesis using IH[of "seen @ [child]" "b @ [child]" ins a rh] by simp
  next
    case n1: False
    show ?thesis
    proof (cases "interval0 child \<ge> effE")
      case True
      then show ?thesis using n1 IH[of "seen @ [child]" b ins "a @ [child]" rh] by simp
    next
      case n2: False
      show ?thesis
      proof (cases "removed r \<and> (state r = REMOVE_ENTIRE_NODE \<or> state r = REMOVE_INTERVAL_INSIDE)")
        case True
        then show ?thesis
          using n1 n2 rc IH[of "seen @ [c']" b ins a "rh @ rehookNodeList r"] by simp
      next
        case False
        then show ?thesis
          using n1 n2 rc IH[of "seen @ [c']" b "ins @ [c']" a rh] by auto
      qed
    qed
  qed
qed

lemma entire_loop_total:
  "tot tg M rec \<Longrightarrow> mus tg cs < M \<Longrightarrow> \<exists>y. entire_loop rec effS effE cs rh = Some y"
proof (induction cs arbitrary: rh)
  case Nil
  then show ?case by simp
next
  case (Cons child rest)
  have M: "mus tg rest < M" "mu tg child < M" using Cons.prems(2) by simp_all
  note IH = Cons.IH[OF Cons.prems(1) M(1)]
  obtain r c' where rc: "rec child effS effE = Some (r, c')"
    using totD[OF Cons.prems(1) M(2)] by blast
  show ?case
  proof (cases "interval0 child < effE \<and> interval1 child > effS")
    case False
    then show ?thesis using IH[of "rh @ [child]"] by auto
  next
    case ov: True
    show ?thesis
    proof (cases "removed r")
      case True
      then show ?thesis using ov rc IH[of "rh @ rehookNodeList r"] by simp
    next
      case False
      then show ?thesis using ov rc IH[of "rh @ [c']"] by simp
    qed
  qed
qed

lemma left_loop_total:
  "rec_post tg rec \<Longrightarrow> tot tg M rec \<Longrightarrow> mus tg cs < M \<Longrightarrow> length cs - i \<le> k \<Longrightarrow>
   \<exists>y. left_loop k rec effS effE cs i tr = Some y"
proof (induction k arbitrary: cs i tr)
  case 0
  then show ?case by simp
next
  case (Suc k)
  note IH = Suc.IH[OF Suc.prems(1,2)]
  show ?case
  proof (cases "i < length cs")
    case False
    then show ?thesis by simp
  next
    case il: True
    have k: "length cs - (i + 1) \<le> k" using Suc.prems(4) il by simp
    obtain r c' where rc: "rec (cs ! i) effS effE = Some (r, c')"
      using totD[OF Suc.prems(2) mu_nth_less[OF il Suc.prems(3)]] by blast
    have p: "call_post tg (cs ! i) effS effE r c'" by (rule rec_postD[OF Suc.prems(1) rc])
    show ?thesis
    proof (cases "interval1 (cs ! i) \<le> effE")
      case True
      then show ?thesis using il IH[OF Suc.prems(3) k, of "tr @ [i]"] by simp
    next
      case n1: False
      show ?thesis
      proof (cases "interval0 (cs ! i) < effE")
        case False
        then show ?thesis using il n1 IH[OF Suc.prems(3) k, of tr] by simp
      next
        case True
        have ne: "state r \<noteq> REMOVE_ENTIRE_NODE" using p n1 by (auto simp: call_post_def)
        have "mus tg (cs[i := c']) \<le> mus tg cs"
          using mus_update_le[OF il, of tg c'] p by (simp add: call_post_def)
        then have M': "mus tg (cs[i := c']) < M" using Suc.prems(3) by simp
        have k': "length (cs[i := c']) - (i + 1) \<le> k" using k by simp
        show ?thesis using il n1 True rc ne IH[OF M' k', of tr] by simp
      qed
    qed
  qed
qed

lemma right_loop_total:
  "rec_post tg rec \<Longrightarrow> tot tg M rec \<Longrightarrow> mus tg cs < M \<Longrightarrow> length cs - i \<le> k \<Longrightarrow>
   \<exists>y. right_loop k rec effS cs i tr = Some y"
proof (induction k arbitrary: cs i tr)
  case 0
  then show ?case by simp
next
  case (Suc k)
  note IH = Suc.IH[OF Suc.prems(1,2)]
  show ?case
  proof (cases "i < length cs")
    case False
    then show ?thesis by simp
  next
    case il: True
    have k: "length cs - (i + 1) \<le> k" using Suc.prems(4) il by simp
    obtain r c' where rc: "rec (cs ! i) effS (interval1 (cs ! i)) = Some (r, c')"
      using totD[OF Suc.prems(2) mu_nth_less[OF il Suc.prems(3)]] by blast
    have p: "call_post tg (cs ! i) effS (interval1 (cs ! i)) r c'" by (rule rec_postD[OF Suc.prems(1) rc])
    show ?thesis
    proof (cases "interval0 (cs ! i) \<ge> effS")
      case True
      then show ?thesis using il IH[OF Suc.prems(3) k, of "tr @ [i]"] by simp
    next
      case n1: False
      show ?thesis
      proof (cases "interval1 (cs ! i) > effS")
        case False
        then show ?thesis using il n1 IH[OF Suc.prems(3) k, of tr] by simp
      next
        case True
        have ne: "state r \<noteq> REMOVE_ENTIRE_NODE" using p n1 by (auto simp: call_post_def)
        have "mus tg (cs[i := c']) \<le> mus tg cs"
          using mus_update_le[OF il, of tg c'] p by (simp add: call_post_def)
        then have M': "mus tg (cs[i := c']) < M" using Suc.prems(3) by simp
        have k': "length (cs[i := c']) - (i + 1) \<le> k" using k by simp
        show ?thesis using il n1 True rc ne IH[OF M' k', of tr] by simp
      qed
    qed
  qed
qed

lemma phi_less:
  assumes "mu tg n < m"
  shows "mu tg n * mu tg n + (length (children n) - j) < m * m"
proof -
  have "length (children n) \<le> mus tg (children n)" by (rule length_le_mus)
  then have l: "length (children n) - j < mu tg n"
    using wgt_pos[of tg n] by (simp add: mu_alt[of tg n])
  have "Suc (mu tg n) * Suc (mu tg n) \<le> m * m"
    using assms by (intro mult_le_mono) simp_all
  then show ?thesis using l by simp
qed

lemma children_loop_total:
  "rec_post tg rec \<Longrightarrow> tot tg M rec \<Longrightarrow> mu tg node \<le> M \<Longrightarrow>
   mu tg node * mu tg node + (length (children node) - i) \<le> k \<Longrightarrow>
   \<exists>y. children_loop k rec start e effS effE node i rem = Some y"
proof (induction k arbitrary: node i rem)
  case 0
  have "0 < mu tg node" using wgt_pos[of tg node] by (simp add: mu_alt[of tg node])
  then show ?case using "0.prems"(4) by simp
next
  case (Suc k)
  note IH = Suc.IH[OF Suc.prems(1,2)]
  note fuel = Suc.prems(4)
  show ?case
  proof (cases "i < length (children node)")
    case False
    then show ?thesis unfolding children_loop_step by simp
  next
    case il: True
    let ?c = "children node ! i"
    have "mu tg ?c < mu tg node" using il by (intro mu_child) simp
    then have cM: "mu tg ?c < M" using Suc.prems(3) by simp
    obtain r c' where rc: "rec ?c start e = Some (r, c')"
      using totD[OF Suc.prems(2) cM] by blast
    have p: "call_post tg ?c start e r c'" by (rule rec_postD[OF Suc.prems(1) rc])
    show ?thesis
    proof (cases "effE \<le> interval0 ?c \<or> effS \<ge> interval1 ?c")
      case True
      have "mu tg node * mu tg node + (length (children node) - (i + 1)) \<le> k"
        using fuel il by simp
      from IH[OF Suc.prems(3) this, of rem] show ?thesis
        unfolding children_loop_step using il True by (simp del: children_loop.simps)
    next
      case ov: False
      show ?thesis
      proof (cases "removed r")
        case False
        let ?n = "set_children ((children node)[i := c']) node"
        have le: "mu tg ?n \<le> mu tg node"
          using mus_update_le[OF il, of tg c'] p by (simp add: mu_set_children mu_alt[of tg node] call_post_def)
        then have "mu tg ?n * mu tg ?n \<le> mu tg node * mu tg node" by (intro mult_le_mono)
        then have f: "mu tg ?n * mu tg ?n + (length (children ?n) - (i + 1)) \<le> k"
          using fuel il by simp
        have M': "mu tg ?n \<le> M" using le Suc.prems(3) by simp
        from IH[OF M' f, of rem] show ?thesis
          unfolding children_loop_step using il ov rc False by (simp del: children_loop.simps)
      next
        case rm: True
        let ?n2 = "node_after node i r c'"
        let ?i2 = "index_after effS node i r c'"
        have lt: "mu tg ?n2 < mu tg node" by (rule node_after_less[OF il p rm])
        show ?thesis
        proof (cases "remainingInterval0 r < remainingInterval1 r")
          case False
          have "mu tg ?n2 * mu tg ?n2 + (length (children ?n2) - ?i2) < mu tg node * mu tg node"
            by (rule phi_less[OF lt])
          then have f: "mu tg ?n2 * mu tg ?n2 + (length (children ?n2) - ?i2) \<le> k"
            using fuel by simp
          have M': "mu tg ?n2 \<le> M" using lt Suc.prems(3) by simp
          from IH[OF M' f, of True] show ?thesis
            unfolding children_loop_step using il ov rc rm False by (simp del: children_loop.simps)
        next
          case True
          have "mu tg ?n2 < M" using lt Suc.prems(3) by simp
          then obtain rr n3 where r3: "rec ?n2 (remainingInterval0 r) (remainingInterval1 r) = Some (rr, n3)"
            using totD[OF Suc.prems(2)] by blast
          have le3: "mu tg n3 \<le> mu tg ?n2" using rec_postD[OF Suc.prems(1) r3] by (simp add: call_post_def)
          then have lt3: "mu tg n3 < mu tg node" using lt by simp
          have "mu tg n3 * mu tg n3 + (length (children n3) - ?i2) < mu tg node * mu tg node"
            by (rule phi_less[OF lt3])
          then have f: "mu tg n3 * mu tg n3 + (length (children n3) - ?i2) \<le> k"
            using fuel by simp
          have M': "mu tg n3 \<le> M" using lt3 Suc.prems(3) by simp
          from IH[OF M' f, of True] show ?thesis
            unfolding children_loop_step using il ov rc rm True r3 by (simp del: children_loop.simps)
        qed
      qed
    qed
  qed
qed

lemma mus_children_less: "mus tg (children node) < mu tg node"
  using wgt_pos[of tg node] by (simp add: mu_alt[of tg node])

lemma removeTagCases_total:
  assumes rp: "rec_post tg rec" and t: "tot tg (mu tg node) rec"
    and fuel: "mu tg node * mu tg node + mu tg node \<le> k"
  shows "\<exists>y. removeTagCases k rec node tg start e effS effE = Some y"
proof (cases rule: body_cases[where effS = effS and effE = effE and node = node and tg = tg])
  case no_overlap
  then show ?thesis by (simp add: cases_no_overlap)
next
  case inside
  obtain y where "inside_loop rec effS effE (children node) ([], [], [], [], []) = Some y"
    using inside_loop_total[OF t mus_children_less] by blast
  then show ?thesis unfolding cases_inside[OF inside] by (auto split: prod.splits)
next
  case left
  have "length (children node) - 0 \<le> k"
    using length_le_mus[of "children node" tg] mus_children_less[of tg node] fuel by simp
  then obtain y where "left_loop k rec effS effE (children node) 0 [] = Some y"
    using left_loop_total[OF rp t mus_children_less] by blast
  then show ?thesis unfolding cases_left[OF left] by (auto split: prod.splits)
next
  case right
  have "length (children node) - 0 \<le> k"
    using length_le_mus[of "children node" tg] mus_children_less[of tg node] fuel by simp
  then obtain y where "right_loop k rec effS (children node) 0 [] = Some y"
    using right_loop_total[OF rp t mus_children_less] by blast
  then show ?thesis unfolding cases_right[OF right] by (auto split: prod.splits)
next
  case entire
  obtain y where "entire_loop rec effS effE (children node) [] = Some y"
    using entire_loop_total[OF t mus_children_less] by blast
  then show ?thesis unfolding cases_entire[OF entire] by simp
next
  case children
  let ?i = "let i0 = findInsertionPoint (children node) effS
            in if i0 > 0 \<and> interval1 (children node ! (i0 - 1)) > effS then i0 - 1 else i0"
  have "length (children node) - ?i \<le> mu tg node"
    using length_le_mus[of "children node" tg] mus_children_less[of tg node] by simp
  then have f: "mu tg node * mu tg node + (length (children node) - ?i) \<le> k"
    using fuel by simp
  obtain y where "children_loop k rec start e effS effE node ?i False = Some y"
    using children_loop_total[OF rp t order_refl f] by blast
  then show ?thesis unfolding cases_children[OF children]
    by (auto simp: processChildren_def Let_def simp del: children_loop.simps split: prod.splits)
qed

lemma removeTagDFS_total:
  "\<exists>y. removeTagDFS (Suc (mu tg node * mu tg node + mu tg node)) node tg s e = Some y"
proof (induction "mu tg node" arbitrary: node s e rule: less_induct)
  case less
  let ?n = "mu tg node * mu tg node + mu tg node"
  let ?rec = "\<lambda>child s e'. removeTagDFS ?n child tg s e'"
  have rp: "rec_post tg ?rec"
    unfolding rec_post_def using removeTagDFS_post by blast
  have t: "tot tg (mu tg node) ?rec"
    unfolding tot_def
  proof (intro allI impI)
    fix c s e
    assume lt: "mu tg c < mu tg node"
    obtain y where y: "removeTagDFS (Suc (mu tg c * mu tg c + mu tg c)) c tg s e = Some y"
      using less[OF lt] by blast
    have "Suc (mu tg c) * Suc (mu tg c) \<le> mu tg node * mu tg node"
      using lt by (intro mult_le_mono) simp_all
    then have "Suc (mu tg c * mu tg c + mu tg c) \<le> ?n" by simp
    from removeTagDFS_mono[OF y this] show "\<exists>y. removeTagDFS ?n c tg s e = Some y" by blast
  qed
  have "\<exists>y. removeTagCases ?n ?rec node tg s e (max s (interval0 node)) (min e (interval1 node)) = Some y"
    by (rule removeTagCases_total[OF rp t order_refl])
  then show ?case by (simp add: removeTagBody_def del: removeTagDFS.simps add: removeTagDFS.simps(2))
qed

text \<open>
  Claim C3.  Every call \<^verbatim>\<open>removeTag(tree, tag, start, end)\<close> terminates, on every tree
  (reachable by the operations or not): with \<open>m\<close> the measure of the root for the tag,
  fuel \<open>m\<^sup>2 + m + 1\<close> is enough for the call to return, and with any larger amount of
  fuel it returns the same flag and the same tree.  In particular the recursive calls of
  the untagged branch on the node itself for a child's remaining interval all return.
\<close>

theorem removeTag_terminates:
  "\<exists>y. \<forall>k. removeTag (Suc (mu tg (root tree) * mu tg (root tree) + mu tg (root tree)) + k)
            tree tg start e = Some y"
proof (cases "start \<ge> e")
  case True
  then have "\<forall>k. removeTag (Suc (mu tg (root tree) * mu tg (root tree) + mu tg (root tree)) + k)
            tree tg start e = Some (False, tree)"
    by (simp add: removeTag_def del: removeTagDFS.simps)
  then show ?thesis by blast
next
  case False
  let ?n = "Suc (mu tg (root tree) * mu tg (root tree) + mu tg (root tree))"
  obtain r c' where y: "removeTagDFS ?n (root tree) tg start e = Some (r, c')"
    using removeTagDFS_total[of tg "root tree" start e] by (metis surj_pair)
  have "removeTagDFS (?n + k) (root tree) tg start e = Some (r, c')" for k
    by (rule removeTagDFS_mono[OF y]) simp
  then have "\<forall>k. removeTag (?n + k) tree tg start e = Some (removed r, tree\<lparr>root := c'\<rparr>)"
    using False by (simp add: removeTag_def del: removeTagDFS.simps)
  then show ?thesis by blast
qed

end
